theory Spec2Isabelle
  imports Main "HOL-Library.Word" "HOL-Library.Char_ord" "HOL-Library.List_Lexorder"
    "HOL-Library.Code_Target_Nat"
begin

unbundle bit_operations_syntax

section \<open>The segmented write-ahead log (package wal)\<close>

text \<open>
  The embedding follows the Go source function by function. The log lives in one flat
  directory, so a path is the base name of the file in that directory. The mutex is not
  modelled: every operation runs alone. A Go panic that nothing recovers is the error
  value \<open>Panic\<close>.
\<close>

subsection \<open>Errors\<close>

datatype error =
    ErrCorrupt | ErrClosed | ErrNotFound | ErrOutOfRange
  | ErrInvalidSeek     \<comment> \<open>errors.New("invalid seek")\<close>
  | ErrNotExist        \<comment> \<open>filesystem: no such file\<close>
  | ErrFileClosed      \<comment> \<open>filesystem: use of a closed file handle\<close>
  | Panic              \<comment> \<open>run-time panic (index or slice bounds out of range)\<close>

subsection \<open>Machine integers\<close>

text \<open>Offsets are int64: every sum or difference of offsets wraps around.\<close>

definition wrap64 :: "int \<Rightarrow> int" where
  "wrap64 x = (x + 2 ^ 63) mod 2 ^ 64 - 2 ^ 63"

type_synonym byte = "8 word"

subsection \<open>encoding/binary: unsigned LEB128\<close>

text \<open>\<open>binary.PutUvarint\<close>, on a uint64 read as a natural number below \<open>2 ^ 64\<close>.\<close>

function put_uvarint :: "nat \<Rightarrow> byte list" where
  "put_uvarint x =
     (if x < 128 then [of_nat x]
      else (of_nat x OR 128) # put_uvarint (drop_bit 7 x))"
  by pat_completeness auto
termination
  by (relation "measure id") (auto simp: drop_bit_eq_div)

declare put_uvarint.simps [simp del]

text \<open>
  \<open>binary.Uvarint\<close>: the value and the number of bytes read; the count is 0 when the
  buffer ends inside the number and negative when the number overflows 64 bits.
\<close>

fun uvarint_go :: "nat \<Rightarrow> nat \<Rightarrow> nat \<Rightarrow> byte list \<Rightarrow> nat \<times> int" where
  "uvarint_go i s x [] = (0, 0)"
| "uvarint_go i s x (b # bs) =
     (if i = 10 then (0, - (int i + 1))
      else if b < 128 then
        (if i = 9 \<and> b > 1 then (0, - (int i + 1))
         else (take_bit 64 (x OR push_bit s (unat b)), int i + 1))
      else uvarint_go (i + 1) (s + 7) (take_bit 64 (x OR push_bit s (unat (b AND 127)))) bs)"

definition uvarint :: "byte list \<Rightarrow> nat \<times> int" where
  "uvarint buf = uvarint_go 0 0 0 buf"

subsection \<open>Segments and entries\<close>

record bpos =
  pos :: nat    \<comment> \<open>byte position\<close>
  bend :: nat   \<comment> \<open>one byte past pos (the field \<open>end\<close>)\<close>

record segment =
  path :: string        \<comment> \<open>path of segment file\<close>
  offset :: int         \<comment> \<open>first offset of segment\<close>
  ebuf :: "byte list"   \<comment> \<open>cached entries buffer\<close>
  epos :: "bpos list"   \<comment> \<open>cached entries positions in buffer\<close>

definition appendUvarint :: "byte list \<Rightarrow> nat \<Rightarrow> byte list" where
  "appendUvarint dst x = dst @ put_uvarint x"

definition appendEntry :: "byte list \<Rightarrow> byte list \<Rightarrow> byte list \<times> bpos" where
  "appendEntry dst data =
     (let p = length dst;
          dst1 = appendUvarint dst (length data mod 2 ^ 64);
          dst2 = dst1 @ data
      in (dst2, \<lparr>pos = p, bend = length dst2\<rparr>))"

definition loadNextEntry :: "byte list \<Rightarrow> error + nat" where
  "loadNextEntry data =
     (case uvarint data of (sz, n) \<Rightarrow>
        if n \<le> 0 then Inl ErrCorrupt
        else if int (length data) - n < int sz then Inl ErrCorrupt
        else Inr (nat n + sz))"

text \<open>
  The loop of \<open>loadSegmentEntries\<close> over the bytes of the file: \<open>data = data[n:]\<close>
  panics when \<open>n\<close> exceeds the length, which \<open>loadNextEntry\<close> excludes.
\<close>

function load_entries :: "nat \<Rightarrow> byte list \<Rightarrow> error + bpos list" where
  "load_entries p data =
     (if data = [] then Inr []
      else case loadNextEntry data of
             Inl e \<Rightarrow> Inl e
           | Inr n \<Rightarrow>
               if n = 0 \<or> length data < n then Inl Panic
               else (case load_entries (p + n) (drop n data) of
                       Inl e \<Rightarrow> Inl e
                     | Inr ps \<Rightarrow> Inr (\<lparr>pos = p, bend = p + n\<rparr> # ps)))"
  by pat_completeness auto
termination
  by (relation "measure (\<lambda>(p, data). length data)") auto

declare load_entries.simps [simp del]

subsection \<open>The filesystem\<close>

text \<open>
  The directory of the log: file names with their contents, no subdirectories. An
  operation fails only where the file it names is missing or the handle is closed.
\<close>

type_synonym filesys = "(string \<times> byte list) list"

definition fs_lookup :: "filesys \<Rightarrow> string \<Rightarrow> byte list option" where
  "fs_lookup fs name = map_of fs name"

definition fs_store :: "filesys \<Rightarrow> string \<Rightarrow> byte list \<Rightarrow> filesys" where
  "fs_store fs name data = (name, data) # filter (\<lambda>kv. fst kv \<noteq> name) fs"

definition fs_delete :: "filesys \<Rightarrow> string \<Rightarrow> filesys" where
  "fs_delete fs name = filter (\<lambda>kv. fst kv \<noteq> name) fs"

text \<open>\<open>afero.ReadDir\<close>: the names, sorted.\<close>

definition fs_ReadDir :: "filesys \<Rightarrow> string list" where
  "fs_ReadDir fs = sort (remdups (map fst fs))"

text \<open>\<open>afero.ReadFile\<close>.\<close>

definition fs_ReadFile :: "filesys \<Rightarrow> string \<Rightarrow> error + byte list" where
  "fs_ReadFile fs name = (case fs_lookup fs name of None \<Rightarrow> Inl ErrNotExist | Some d \<Rightarrow> Inr d)"

definition fs_Remove :: "filesys \<Rightarrow> string \<Rightarrow> error + filesys" where
  "fs_Remove fs name =
     (case fs_lookup fs name of None \<Rightarrow> Inl ErrNotExist | Some d \<Rightarrow> Inr (fs_delete fs name))"

definition fs_Rename :: "filesys \<Rightarrow> string \<Rightarrow> string \<Rightarrow> error + filesys" where
  "fs_Rename fs old new =
     (case fs_lookup fs old of
        None \<Rightarrow> Inl ErrNotExist
      | Some d \<Rightarrow> if old = new then Inr fs else Inr (fs_store (fs_delete fs old) new d))"

text \<open>
  A file handle is the name it was opened under, or \<open>None\<close> once closed. A handle is
  always positioned at the end of its file (a new file is empty, an opened one is sought
  to its end before the first write), so a write appends.
\<close>

type_synonym handle = "string option"

definition file_Write :: "filesys \<Rightarrow> handle \<Rightarrow> byte list \<Rightarrow> error + filesys" where
  "file_Write fs f data =
     (case f of
        None \<Rightarrow> Inl ErrFileClosed
      | Some name \<Rightarrow>
          (case fs_lookup fs name of
             None \<Rightarrow> Inl ErrNotExist
           | Some d \<Rightarrow> Inr (fs_store fs name (d @ data))))"

definition file_Sync :: "handle \<Rightarrow> error option" where
  "file_Sync f = (case f of None \<Rightarrow> Some ErrFileClosed | Some name \<Rightarrow> None)"

definition file_Close :: "handle \<Rightarrow> error option" where
  "file_Close f = (case f of None \<Rightarrow> Some ErrFileClosed | Some name \<Rightarrow> None)"

text \<open>\<open>Seek(0, 2)\<close>: the length of the file.\<close>

definition file_SeekEnd :: "filesys \<Rightarrow> handle \<Rightarrow> error + nat" where
  "file_SeekEnd fs f =
     (case f of
        None \<Rightarrow> Inl ErrFileClosed
      | Some name \<Rightarrow>
          (case fs_lookup fs name of None \<Rightarrow> Inl ErrNotExist | Some d \<Rightarrow> Inr (length d)))"


subsection \<open>Segment file names\<close>

definition startSuffix :: string where "startSuffix = ''.START''"
definition endSuffix :: string where "endSuffix = ''.END''"
definition truncateSuffix :: string where "truncateSuffix = ''.TRUNCATE''"
definition tempFileName :: string where "tempFileName = ''TEMP''"
definition segmentFilenameLength :: nat where "segmentFilenameLength = 20"

definition digit_char :: "nat \<Rightarrow> char" where
  "digit_char d = char_of (48 + d)"

function dec :: "nat \<Rightarrow> string" where
  "dec n = (if n < 10 then [digit_char n] else dec (n div 10) @ [digit_char (n mod 10)])"
  by pat_completeness auto
termination
  by (relation "measure id") auto

declare dec.simps [simp del]

definition zero_pad :: "nat \<Rightarrow> string \<Rightarrow> string" where
  "zero_pad w s = replicate (w - length s) (CHR ''0'') @ s"

text \<open>\<open>fmt.Sprintf("%020d", offset)\<close>: the sign counts in the width of 20.\<close>

definition segmentName :: "int \<Rightarrow> string" where
  "segmentName off =
     (if off < 0 then CHR ''-'' # zero_pad 19 (dec (nat (- off)))
      else zero_pad 20 (dec (nat off)))"

definition is_digit :: "char \<Rightarrow> bool" where
  "is_digit c = (48 \<le> (of_char c :: nat) \<and> (of_char c :: nat) \<le> 57)"

fun digits_val :: "nat \<Rightarrow> string \<Rightarrow> nat" where
  "digits_val acc [] = acc"
| "digits_val acc (c # cs) = digits_val (acc * 10 + (of_char c - 48)) cs"

text \<open>
  \<open>strconv.ParseInt(s, 10, 64)\<close>: an optional sign, then decimal digits only, at least
  one; \<open>None\<close> for a syntax error or a value out of the range of int64.
\<close>

definition ParseInt :: "string \<Rightarrow> int option" where
  "ParseInt s =
     (let neg = (s \<noteq> [] \<and> hd s = CHR ''-'');
          ds = (if s \<noteq> [] \<and> (hd s = CHR ''-'' \<or> hd s = CHR ''+'') then tl s else s)
      in if ds = [] \<or> \<not> list_all is_digit ds then None
         else let v = (if neg then - int (digits_val 0 ds) else int (digits_val 0 ds))
              in if v < - (2 ^ 63) \<or> 2 ^ 63 - 1 < v then None else Some v)"

definition HasSuffix :: "string \<Rightarrow> string \<Rightarrow> bool" where
  "HasSuffix s suffix =
     (length suffix \<le> length s \<and> drop (length s - length suffix) s = suffix)"

subsection \<open>The log\<close>

record options =
  NoSync :: bool
  SegmentSize :: int
  SegmentCacheSize :: int
  NoCopy :: bool

definition DefaultOptions :: options where
  "DefaultOptions = \<lparr>NoSync = False, SegmentSize = 20971520, SegmentCacheSize = 2, NoCopy = True\<rparr>"

text \<open>
  \<open>segments\<close> is a slice of pointers and the cache \<open>scache\<close> maps an index of
  \<open>segments\<close> to the pointer stored there. The code replaces \<open>segments\<close> only together
  with a \<open>clearCache\<close>, so the segment under a cached key is the one at that index:
  the model keeps the cached keys, most recently used first, and reads and writes the
  segment through the index. \<open>fs\<close> is the directory; \<open>sfile\<close> the tail's file handle.
  The reusable batch \<open>wbatch\<close> is rebuilt at every \<open>Write\<close> and left out.
\<close>

record log =
  opts :: options
  closed :: bool
  corrupt :: bool
  segments :: "segment list"
  firstOffset :: int
  lastOffset :: int
  sfile :: handle
  scache :: "nat list"
  fs :: filesys

text \<open>
  \<open>tinylru\<close>: \<open>Resize\<close> with a size that is not positive keeps the default of 256.
  \<open>SetEvicted\<close> moves a known key to the front; a new key goes to the front and, when
  the cache is full, the least recently used key is evicted.
\<close>

definition lru_size :: "log \<Rightarrow> nat" where
  "lru_size l = (if SegmentCacheSize (opts l) \<le> 0 then 256 else nat (SegmentCacheSize (opts l)))"

definition drop_buffers :: "segment \<Rightarrow> segment" where
  "drop_buffers s = s\<lparr>ebuf := [], epos := []\<rparr>"

definition pushCache :: "log \<Rightarrow> nat \<Rightarrow> log" where
  "pushCache l segIdx =
     (if segIdx \<in> set (scache l) then l\<lparr>scache := segIdx # remove1 segIdx (scache l)\<rparr>
      else if length (scache l) = lru_size l then
        (let ev = last (scache l)
         in l\<lparr>scache := segIdx # butlast (scache l),
              segments := (segments l)[ev := drop_buffers (segments l ! ev)]\<rparr>)
      else l\<lparr>scache := segIdx # scache l\<rparr>)"

definition clearCache :: "log \<Rightarrow> log" where
  "clearCache l =
     l\<lparr>segments := fold (\<lambda>i segs. segs[i := drop_buffers (segs ! i)]) (scache l) (segments l),
       scache := []\<rparr>"

definition newFile :: "log \<Rightarrow> string \<Rightarrow> handle \<times> filesys" where
  "newFile l name = (Some name, fs_store (fs l) name [])"

definition openFile :: "log \<Rightarrow> string \<Rightarrow> error + handle" where
  "openFile l name = (case fs_lookup (fs l) name of None \<Rightarrow> Inl ErrNotExist | Some d \<Rightarrow> Inr (Some name))"

text \<open>
  Modelled from the spec: \<open>doFSync\<close> is not in the source at hand; the spec says the tail
  file is fsynced, which fails only on a closed handle.
\<close>

definition doFSync :: "handle \<Rightarrow> error option" where
  "doFSync f = file_Sync f"

definition syncNoMutex :: "log \<Rightarrow> error option" where
  "syncNoMutex l = doFSync (sfile l)"

definition createInitialSegment :: "log \<Rightarrow> int \<Rightarrow> error option \<times> log" where
  "createInitialSegment l off =
     (let l1 = l\<lparr>segments := segments l @ [\<lparr>path = segmentName off, offset = off, ebuf = [], epos = []\<rparr>],
                 firstOffset := off, lastOffset := wrap64 (off - 1)\<rparr>;
          (f, fs1) = newFile l1 (path (segments l1 ! 0))
      in (None, l1\<lparr>sfile := f, fs := fs1\<rparr>))"

definition loadSegmentEntries :: "log \<Rightarrow> nat \<Rightarrow> error option \<times> log" where
  "loadSegmentEntries l i =
     (case fs_ReadFile (fs l) (path (segments l ! i)) of
        Inl e \<Rightarrow> (Some e, l)
      | Inr data \<Rightarrow>
          (case load_entries 0 data of
             Inl e \<Rightarrow> (Some e, l)
           | Inr ps \<Rightarrow> (None, l\<lparr>segments := (segments l)[i := (segments l ! i)\<lparr>ebuf := data, epos := ps\<rparr>]\<rparr>)))"


subsection \<open>Opening: the directory scan and the recovery of markers\<close>

text \<open>
  The loop of \<open>load\<close> over the directory entries; \<open>segs\<close>, \<open>startIdx\<close>, \<open>endIdx\<close> and
  \<open>truncateIdx\<close> are the variables of the source, \<open>-1\<close> meaning no such marker so far.
\<close>

fun load_scan ::
  "string list \<Rightarrow> segment list \<Rightarrow> int \<Rightarrow> int \<Rightarrow> int \<Rightarrow> error + (segment list \<times> int \<times> int \<times> int)" where
  "load_scan [] segs startIdx endIdx truncateIdx = Inr (segs, startIdx, endIdx, truncateIdx)"
| "load_scan (name # fis) segs startIdx endIdx truncateIdx =
     (if length name < segmentFilenameLength then load_scan fis segs startIdx endIdx truncateIdx
      else case ParseInt (take segmentFilenameLength name) of
        None \<Rightarrow> load_scan fis segs startIdx endIdx truncateIdx
      | Some index \<Rightarrow>
          if index = - 1 then load_scan fis segs startIdx endIdx truncateIdx
          else
            (let isStart = (length name = segmentFilenameLength + length startSuffix
                            \<and> HasSuffix name startSuffix);
                 isEnd = (length name = segmentFilenameLength + length endSuffix
                            \<and> HasSuffix name endSuffix);
                 isTruncate = (length name = segmentFilenameLength + length truncateSuffix
                            \<and> HasSuffix name truncateSuffix);
                 segs1 = segs @ [\<lparr>path = name, offset = index, ebuf = [], epos = []\<rparr>]
             in if length name = segmentFilenameLength \<or> isStart \<or> isEnd \<or> isTruncate then
                  (if isStart then load_scan fis segs1 (int (length segs)) endIdx truncateIdx
                   else if isEnd \<and> endIdx = - 1 then
                     load_scan fis segs1 startIdx (int (length segs)) truncateIdx
                   else if isTruncate then
                     (if truncateIdx \<noteq> - 1 then Inl ErrCorrupt
                      else load_scan fis segs1 startIdx endIdx (int (length segs)))
                   else load_scan fis segs1 startIdx endIdx truncateIdx)
                else load_scan fis segs startIdx endIdx truncateIdx))"

text \<open>The check after the loop that rejects markers of two kinds.\<close>

definition markers_conflict :: "int \<Rightarrow> int \<Rightarrow> int \<Rightarrow> bool" where
  "markers_conflict startIdx endIdx truncateIdx =
     ((startIdx \<noteq> - 1 \<and> endIdx \<noteq> - 1) \<or> (startIdx \<noteq> - 1 \<and> truncateIdx \<noteq> - 1)
      \<or> (truncateIdx \<noteq> - 1 \<and> endIdx \<noteq> - 1))"

fun remove_files :: "filesys \<Rightarrow> string list \<Rightarrow> error + filesys" where
  "remove_files d [] = Inr d"
| "remove_files d (p # ps) =
     (case fs_Remove d p of Inl e \<Rightarrow> Inl e | Inr d1 \<Rightarrow> remove_files d1 ps)"

definition set_path :: "segment list \<Rightarrow> nat \<Rightarrow> string \<Rightarrow> segment list" where
  "set_path segs i p = segs[i := (segs ! i)\<lparr>path := p\<rparr>]"

definition load_start :: "log \<Rightarrow> int \<Rightarrow> error option \<times> log" where
  "load_start l startIdx =
     (if startIdx = - 1 then (None, l)
      else case remove_files (fs l) (map path (take (nat startIdx) (segments l))) of
        Inl e \<Rightarrow> (Some e, l)
      | Inr fs1 \<Rightarrow>
          (let segs = drop (nat startIdx) (segments l);
               orgPath = path (segs ! 0);
               finalPath = take (length orgPath - length startSuffix) orgPath
           in case fs_Rename fs1 orgPath finalPath of
                Inl e \<Rightarrow> (Some e, l\<lparr>segments := segs, fs := fs1\<rparr>)
              | Inr fs2 \<Rightarrow> (None, l\<lparr>segments := set_path segs 0 finalPath, fs := fs2\<rparr>)))"

definition load_end :: "log \<Rightarrow> int \<Rightarrow> error option \<times> log" where
  "load_end l endIdx =
     (if endIdx = - 1 then (None, l)
      else case remove_files (fs l) (rev (map path (drop (nat (endIdx + 1)) (segments l)))) of
        Inl e \<Rightarrow> (Some e, l)
      | Inr fs1 \<Rightarrow>
          (let segs0 = take (nat (endIdx + 1)) (segments l);
               n = length segs0;
               segs = (if n > 1 \<and> offset (segs0 ! (n - 2)) = offset (segs0 ! (n - 1))
                       then take (n - 1) (segs0[n - 2 := segs0 ! (n - 1)]) else segs0);
               orgPath = path (segs ! (length segs - 1));
               finalPath = take (length orgPath - length endSuffix) orgPath
           in case fs_Rename fs1 orgPath finalPath of
                Inl e \<Rightarrow> (Some e, l\<lparr>segments := segs, fs := fs1\<rparr>)
              | Inr fs2 \<Rightarrow>
                  (None, l\<lparr>segments := set_path segs (length segs - 1) finalPath, fs := fs2\<rparr>)))"

definition load_truncate :: "log \<Rightarrow> int \<Rightarrow> error option \<times> log" where
  "load_truncate l truncateIdx =
     (if truncateIdx = - 1 then (None, l)
      else case remove_files (fs l)
                  (map path (take (nat truncateIdx) (segments l)
                             @ drop (nat truncateIdx + 1) (segments l))) of
        Inl e \<Rightarrow> (Some e, l)
      | Inr fs1 \<Rightarrow>
          (let segs = [segments l ! nat truncateIdx];
               orgPath = path (segs ! 0);
               finalPath = take (length orgPath - length truncateSuffix) orgPath
           in case fs_Rename fs1 orgPath finalPath of
                Inl e \<Rightarrow> (Some e, l\<lparr>segments := segs, fs := fs1\<rparr>)
              | Inr fs2 \<Rightarrow> (None, l\<lparr>segments := set_path segs 0 finalPath, fs := fs2\<rparr>)))"

text \<open>The end of \<open>load\<close>: open the last segment for appending and load its entries.\<close>

definition load_tail :: "log \<Rightarrow> error option \<times> log" where
  "load_tail l =
     (let l1 = l\<lparr>firstOffset := offset (segments l ! 0)\<rparr>;
          li = length (segments l1) - 1;
          lseg = segments l1 ! li
      in case openFile l1 (path lseg) of
           Inl e \<Rightarrow> (Some e, l1)
         | Inr f \<Rightarrow>
             (let l2 = l1\<lparr>sfile := f\<rparr>
              in case file_SeekEnd (fs l2) (sfile l2) of
                   Inl e \<Rightarrow> (Some e, l2)
                 | Inr n \<Rightarrow>
                     (case loadSegmentEntries l2 li of
                        (Some e, l3) \<Rightarrow> (Some e, l3)
                      | (None, l3) \<Rightarrow>
                          (None, l3\<lparr>lastOffset :=
                             wrap64 (offset (segments l3 ! li)
                                     + int (length (epos (segments l3 ! li))) - 1)\<rparr>))))"

definition load :: "log \<Rightarrow> error option \<times> log" where
  "load l =
     (case load_scan (fs_ReadDir (fs l)) (segments l) (- 1) (- 1) (- 1) of
        Inl e \<Rightarrow> (Some e, l)
      | Inr (segs, startIdx, endIdx, truncateIdx) \<Rightarrow>
          (let l1 = l\<lparr>segments := segs\<rparr>
           in if length segs = 0 then createInitialSegment l1 0
              else if markers_conflict startIdx endIdx truncateIdx then (Some ErrCorrupt, l1)
              else case load_start l1 startIdx of
                (Some e, l2) \<Rightarrow> (Some e, l2)
              | (None, l2) \<Rightarrow>
                  (case load_end l2 endIdx of
                     (Some e, l3) \<Rightarrow> (Some e, l3)
                   | (None, l3) \<Rightarrow>
                       (case load_truncate l3 truncateIdx of
                          (Some e, l4) \<Rightarrow> (Some e, l4)
                        | (None, l4) \<Rightarrow> load_tail l4))))"

text \<open>
  \<open>OpenWithShard\<close> on the directory \<open>dir\<close> (which \<open>MkdirAll\<close> leaves as it is when it
  exists); \<open>None\<close> for the options is the nil pointer.
\<close>

definition OpenWithShard :: "filesys \<Rightarrow> options option \<Rightarrow> error + log" where
  "OpenWithShard dir optp =
     (let o1 = (case optp of None \<Rightarrow> DefaultOptions | Some x \<Rightarrow> x);
          o2 = (if SegmentCacheSize o1 \<le> 0
                then o1\<lparr>SegmentCacheSize := SegmentCacheSize DefaultOptions\<rparr> else o1);
          o3 = (if SegmentSize o2 \<le> 0
                then o2\<lparr>SegmentSize := SegmentSize DefaultOptions\<rparr> else o2);
          l = \<lparr>opts = o3, closed = False, corrupt = False, segments = [], firstOffset = 0,
               lastOffset = 0, sfile = None, scache = [], fs = dir\<rparr>
      in case load l of (Some e, l1) \<Rightarrow> Inl e | (None, l1) \<Rightarrow> Inr l1)"

definition open_log :: "filesys \<Rightarrow> options option \<Rightarrow> error + log" where
  "open_log dir optp = OpenWithShard dir optp"

definition Close :: "log \<Rightarrow> error option \<times> log" where
  "Close l =
     (if closed l then (if corrupt l then (Some ErrCorrupt, l) else (Some ErrClosed, l))
      else case syncNoMutex l of
        Some e \<Rightarrow> (Some e, l)
      | None \<Rightarrow>
          (case file_Close (sfile l) of
             Some e \<Rightarrow> (Some e, l)
           | None \<Rightarrow>
               (let l1 = l\<lparr>sfile := None, closed := True\<rparr>
                in if corrupt l1 then (Some ErrCorrupt, l1) else (None, l1))))"


subsection \<open>Appending\<close>

record batchEntry =
  entry_offset :: int   \<comment> \<open>the field \<open>offset\<close>\<close>
  entry_size :: nat     \<comment> \<open>the field \<open>size\<close>\<close>

record Batch =
  entries :: "batchEntry list"
  datas :: "byte list"

definition Batch_Write :: "Batch \<Rightarrow> int \<Rightarrow> byte list \<Rightarrow> Batch" where
  "Batch_Write b off data =
     b\<lparr>entries := entries b @ [\<lparr>entry_offset = off, entry_size = length data\<rparr>],
       datas := datas b @ data\<rparr>"

definition Batch_Clear :: "Batch \<Rightarrow> Batch" where
  "Batch_Clear b = b\<lparr>entries := [], datas := []\<rparr>"

definition set_last :: "segment list \<Rightarrow> segment \<Rightarrow> segment list" where
  "set_last segs s = segs[length segs - 1 := s]"

text \<open>Cycle the old segment for a new segment.\<close>

definition cycle :: "log \<Rightarrow> int \<Rightarrow> error option \<times> log" where
  "cycle l nextOffset =
     (case syncNoMutex l of
        Some e \<Rightarrow> (Some e, l)
      | None \<Rightarrow>
          (case file_Close (sfile l) of
             Some e \<Rightarrow> (Some e, l)
           | None \<Rightarrow>
               (let l1 = l\<lparr>sfile := None\<rparr>;
                    lastSegment = segments l1 ! (length (segments l1) - 1);
                    r = (if offset lastSegment = 0 \<and> length (ebuf lastSegment) = 0 then
                           (let l2 = l1\<lparr>firstOffset := nextOffset\<rparr>
                            in case fs_Remove (fs l2) (path lastSegment) of
                                 Inl e \<Rightarrow> (Some e, l2)
                               | Inr d \<Rightarrow> (None, l2\<lparr>fs := d\<rparr>))
                         else (None, pushCache l1 (length (segments l1) - 1)))
                in case r of
                     (Some e, l3) \<Rightarrow> (Some e, l3)
                   | (None, l3) \<Rightarrow>
                       (let s = \<lparr>path = segmentName nextOffset, offset = nextOffset,
                                 ebuf = [], epos = []\<rparr>;
                            (f, d) = newFile l3 (path s)
                        in (None, l3\<lparr>sfile := f, fs := d, segments := segments l3 @ [s]\<rparr>)))))"

text \<open>
  The loop of \<open>writeBatch\<close> over the entries; \<open>s\<close> is always the last segment, \<open>mark\<close>
  and \<open>ds\<close> are the variables \<open>mark\<close> and \<open>datas\<close>. It returns the error, the log and
  the final \<open>mark\<close>. A slice past the length of \<open>datas\<close> is a panic.
\<close>

fun writeBatch_loop ::
  "log \<Rightarrow> nat \<Rightarrow> byte list \<Rightarrow> batchEntry list \<Rightarrow> error option \<times> log \<times> nat" where
  "writeBatch_loop l mark ds [] = (None, l, mark)"
| "writeBatch_loop l mark ds (e # es) =
     (if length ds < entry_size e then (Some Panic, l, mark)
      else
        (let data = take (entry_size e) ds;
             s = segments l ! (length (segments l) - 1);
             (buf, ep) = appendEntry (ebuf s) data;
             s1 = s\<lparr>ebuf := buf, epos := epos s @ [ep]\<rparr>;
             l1 = l\<lparr>segments := set_last (segments l) s1\<rparr>
         in if int (length (ebuf s1)) \<ge> SegmentSize (opts l1) then
              (case file_Write (fs l1) (sfile l1) (drop mark (ebuf s1)) of
                 Inl err \<Rightarrow> (Some err, l1, mark)
               | Inr d \<Rightarrow>
                   (let l2 = l1\<lparr>fs := d, lastOffset := entry_offset e\<rparr>
                    in case cycle l2 (wrap64 (entry_offset e + 1)) of
                         (Some err, l3) \<Rightarrow> (Some err, l3, mark)
                       | (None, l3) \<Rightarrow> writeBatch_loop l3 0 (drop (entry_size e) ds) es))
            else writeBatch_loop l1 mark (drop (entry_size e) ds) es))"

definition writeBatch :: "log \<Rightarrow> Batch \<Rightarrow> error option \<times> log" where
  "writeBatch l b =
     (if entries b = [] \<or> segments l = [] then (Some Panic, l)
      else
        (let s = segments l ! (length (segments l) - 1);
             firstOffsetInBatch = entry_offset (entries b ! 0);
             r = (if firstOffsetInBatch > wrap64 (lastOffset l + 1)
                     \<or> int (length (ebuf s)) > SegmentSize (opts l)
                  then cycle l firstOffsetInBatch else (None, l))
         in case r of
              (Some err, l1) \<Rightarrow> (Some err, l1)
            | (None, l1) \<Rightarrow>
                (let mark = length (ebuf (segments l1 ! (length (segments l1) - 1)))
                 in case writeBatch_loop l1 mark (datas b) (entries b) of
                      (Some err, l2, mark2) \<Rightarrow> (Some err, l2)
                    | (None, l2, mark2) \<Rightarrow>
                        (let s2 = segments l2 ! (length (segments l2) - 1);
                             r2 = (if length (ebuf s2) - mark2 > 0 then
                                     (case file_Write (fs l2) (sfile l2) (drop mark2 (ebuf s2)) of
                                        Inl err \<Rightarrow> (Some err, l2)
                                      | Inr d \<Rightarrow>
                                          (None, l2\<lparr>fs := d,
                                             lastOffset := entry_offset (last (entries b))\<rparr>))
                                   else (None, l2))
                         in case r2 of
                              (Some err, l3) \<Rightarrow> (Some err, l3)
                            | (None, l3) \<Rightarrow>
                                if \<not> NoSync (opts l3) then
                                  (case syncNoMutex l3 of
                                     Some err \<Rightarrow> (Some err, l3)
                                   | None \<Rightarrow> (None, l3))
                                else (None, l3)))))"

text \<open>Write an entry to the log.\<close>

definition Write :: "log \<Rightarrow> int \<Rightarrow> byte list \<Rightarrow> error option \<times> log" where
  "Write l off data =
     (if corrupt l then (Some ErrCorrupt, l)
      else if closed l then (Some ErrClosed, l)
      else writeBatch l (Batch_Write (Batch_Clear \<lparr>entries = [], datas = []\<rparr>) off data))"

definition WriteBatch :: "log \<Rightarrow> Batch \<Rightarrow> error option \<times> log" where
  "WriteBatch l b =
     (if corrupt l then (Some ErrCorrupt, l)
      else if closed l then (Some ErrClosed, l)
      else if length (entries b) = 0 then (None, l)
      else writeBatch l b)"

definition FirstIndex :: "log \<Rightarrow> error + int" where
  "FirstIndex l =
     (if corrupt l then Inl ErrCorrupt else if closed l then Inl ErrClosed
      else Inr (firstOffset l))"

definition LastIndex :: "log \<Rightarrow> error + int" where
  "LastIndex l =
     (if corrupt l then Inl ErrCorrupt else if closed l then Inl ErrClosed
      else Inr (lastOffset l))"

subsection \<open>Reading\<close>

function findSegment_go :: "segment list \<Rightarrow> int \<Rightarrow> nat \<Rightarrow> nat \<Rightarrow> nat" where
  "findSegment_go segs index i j =
     (if i < j then
        (let h = i + (j - i) div 2
         in if index \<ge> offset (segs ! h) then findSegment_go segs index (h + 1) j
            else findSegment_go segs index i h)
      else i)"
  by pat_completeness auto
termination
  by (relation "measure (\<lambda>(segs, index, i, j). j - i)") auto

declare findSegment_go.simps [simp del]

text \<open>findSegment performs a bsearch on the segments.\<close>

definition findSegment :: "log \<Rightarrow> int \<Rightarrow> int" where
  "findSegment l index = int (findSegment_go (segments l) index 0 (length (segments l))) - 1"

text \<open>
  The \<open>Range\<close> callback of \<open>loadSegment\<close> returns false at once: only the most recently
  used entry of the cache is looked at.
\<close>

definition cache_lookup :: "log \<Rightarrow> int \<Rightarrow> nat option" where
  "cache_lookup l index =
     (case scache l of
        [] \<Rightarrow> None
      | k # ks \<Rightarrow>
          (let s = segments l ! k
           in if index \<ge> offset s \<and> index < wrap64 (offset s + int (length (epos s)))
              then Some k else None))"

text \<open>
  \<open>loadSegment\<close> returns a pointer to a segment of \<open>segments\<close>; the model returns its
  index.
\<close>

definition loadSegment :: "log \<Rightarrow> int \<Rightarrow> (error + nat) \<times> log" where
  "loadSegment l index =
     (if segments l = [] then (Inl Panic, l)
      else if index \<ge> offset (segments l ! (length (segments l) - 1))
        then (Inr (length (segments l) - 1), l)
      else case cache_lookup l index of
        Some k \<Rightarrow> (Inr k, l)
      | None \<Rightarrow>
          (let idx = findSegment l index
           in if idx < 0 \<or> int (length (segments l)) \<le> idx then (Inl Panic, l)
              else
                (case (if length (epos (segments l ! nat idx)) = 0
                       then loadSegmentEntries l (nat idx) else (None, l)) of
                   (Some e, l1) \<Rightarrow> (Inl e, l1)
                 | (None, l1) \<Rightarrow> (Inr (nat idx), pushCache l1 (nat idx)))))"

text \<open>Read an entry from the log. Returns a byte slice containing the data entry.\<close>

definition Read :: "log \<Rightarrow> int \<Rightarrow> (error + byte list) \<times> log" where
  "Read l off =
     (if corrupt l then (Inl ErrCorrupt, l)
      else if closed l then (Inl ErrClosed, l)
      else if off < firstOffset l \<or> off > lastOffset l then (Inl ErrNotFound, l)
      else case loadSegment l off of
        (Inl e, l1) \<Rightarrow> (Inl e, l1)
      | (Inr si, l1) \<Rightarrow>
          (let s = segments l1 ! si;
               k = wrap64 (off - offset s)
           in if k < 0 \<or> int (length (epos s)) \<le> k then (Inl Panic, l1)
              else
                (let ep = epos s ! nat k
                 in if bend ep < pos ep \<or> length (ebuf s) < bend ep then (Inl Panic, l1)
                    else
                      (let edata = take (bend ep - pos ep) (drop (pos ep) (ebuf s));
                           (sz, n) = uvarint edata
                       in if n \<le> 0 then (Inl ErrCorrupt, l1)
                          else if int (length edata) - n < int sz then (Inl ErrCorrupt, l1)
                          else if NoCopy (opts l1)
                            then (Inr (take (nat n + sz - nat n) (drop (nat n) edata)), l1)
                            else (Inr (take sz (drop (nat n) edata)), l1)))))"

definition ClearCache :: "log \<Rightarrow> error option \<times> log" where
  "ClearCache l =
     (if corrupt l then (Some ErrCorrupt, l)
      else if closed l then (Some ErrClosed, l)
      else (None, clearCache l))"

definition Sync :: "log \<Rightarrow> error option \<times> log" where
  "Sync l =
     (if corrupt l then (Some ErrCorrupt, l)
      else if closed l then (Some ErrClosed, l)
      else (syncNoMutex l, l))"


subsection \<open>Truncation\<close>

text \<open>
  The deferred function of the truncations: a panic after the rename is recovered, the
  log is marked corrupt and \<open>ErrCorrupt\<close> is returned. An error that is returned passes
  through unchanged.
\<close>

definition recover_corrupt :: "error option \<times> log \<Rightarrow> error option \<times> log" where
  "recover_corrupt r =
     (case r of
        (Some Panic, l) \<Rightarrow> (Some ErrCorrupt, l\<lparr>corrupt := True\<rparr>)
      | (e, l) \<Rightarrow> (e, l))"

text \<open>
  The temp file of a truncation: created, written, synced and closed by a function
  literal whose error the next assignment to \<open>err\<close> overwrites.
\<close>

definition write_temp :: "log \<Rightarrow> string \<Rightarrow> byte list \<Rightarrow> log" where
  "write_temp l tempName buf =
     (let (f, d) = newFile l tempName
      in case file_Write d f buf of Inl e \<Rightarrow> l\<lparr>fs := d\<rparr> | Inr d1 \<Rightarrow> l\<lparr>fs := d1\<rparr>)"

text \<open>
  The loops that delete segment files by index, \<open>for i := a; i < b; i++\<close> over
  \<open>l.segments[i].path\<close>: an index past the end of \<open>segments\<close> is a panic.
\<close>

fun remove_segments :: "log \<Rightarrow> nat list \<Rightarrow> error option \<times> log" where
  "remove_segments l [] = (None, l)"
| "remove_segments l (i # is) =
     (if length (segments l) \<le> i then (Some Panic, l)
      else case fs_Remove (fs l) (path (segments l ! i)) of
        Inl e \<Rightarrow> (Some e, l)
      | Inr d \<Rightarrow> remove_segments (l\<lparr>fs := d\<rparr>) is)"

text \<open>
  Reopen the tail segment file under \<open>newName\<close>, seek to its end and compare with the
  length written.
\<close>

definition reopen_tail :: "log \<Rightarrow> string \<Rightarrow> nat \<Rightarrow> error option \<times> log" where
  "reopen_tail l newName n0 =
     (case openFile l newName of
        Inl e \<Rightarrow> (Some e, l\<lparr>sfile := None\<rparr>)
      | Inr f \<Rightarrow>
          (let l1 = l\<lparr>sfile := f\<rparr>
           in case file_SeekEnd (fs l1) (sfile l1) of
                Inl e \<Rightarrow> (Some e, l1)
              | Inr n \<Rightarrow> if n \<noteq> n0 then (Some ErrInvalidSeek, l1) else (None, l1)))"

text \<open>
  The part of \<open>truncateFront\<close> after the rename of the temp file to the START name.
  \<open>segIdx\<close> is the result of \<open>findSegment\<close> and \<open>si\<close> the index of the segment \<open>s\<close> that
  \<open>loadSegment\<close> returned. The source replaces \<open>segments\<close> before \<open>clearCache\<close>, which then
  drops the buffers of the cached segments through their pointers: the model drops them
  first, by index, and then takes the suffix of \<open>segments\<close>.
\<close>

definition truncateFront_cleanup ::
  "log \<Rightarrow> int \<Rightarrow> int \<Rightarrow> nat \<Rightarrow> nat \<Rightarrow> string \<Rightarrow> error option \<times> log" where
  "truncateFront_cleanup l index segIdx si n0 startName =
     (case (if segIdx = int (length (segments l)) - 1
            then (case file_Close (sfile l) of
                    Some e \<Rightarrow> (Some e, l) | None \<Rightarrow> (None, l\<lparr>sfile := None\<rparr>))
            else (None, l)) of
        (Some e, l1) \<Rightarrow> (Some e, l1)
      | (None, l1) \<Rightarrow>
          (case remove_segments l1 [0 ..< nat (segIdx + 1)] of
             (Some e, l2) \<Rightarrow> (Some e, l2)
           | (None, l2) \<Rightarrow>
               (let newName = segmentName index
                in case fs_Rename (fs l2) startName newName of
                     Inl e \<Rightarrow> (Some e, l2)
                   | Inr d \<Rightarrow>
                       (let l3 = l2\<lparr>fs := d,
                                   segments := (segments l2)
                                     [si := (segments l2 ! si)\<lparr>path := newName, offset := index\<rparr>]\<rparr>
                        in case (if segIdx = int (length (segments l3)) - 1
                                 then (case reopen_tail l3 newName n0 of
                                         (Some e, l4) \<Rightarrow> (Some e, l4)
                                       | (None, l4) \<Rightarrow> loadSegmentEntries l4 si)
                                 else (None, l3)) of
                             (Some e, l5) \<Rightarrow> (Some e, l5)
                           | (None, l5) \<Rightarrow>
                               if segIdx < 0 \<or> int (length (segments l5)) < segIdx
                               then (Some Panic, l5)
                               else
                                 (let l6 = clearCache l5
                                  in (None, l6\<lparr>segments := drop (nat segIdx) (segments l6),
                                               firstOffset := index\<rparr>))))))"

definition truncateFront :: "log \<Rightarrow> int \<Rightarrow> error option \<times> log" where
  "truncateFront l index =
     (if index < firstOffset l \<or> index > lastOffset l then (Some ErrOutOfRange, l)
      else if index = firstOffset l then (None, l)
      else
        (let segIdx = findSegment l index
         in case loadSegment l index of
              (Inl e, l1) \<Rightarrow> (Some e, l1)
            | (Inr si, l1) \<Rightarrow>
                (let s = segments l1 ! si;
                     k = wrap64 (index - offset s)
                 in if k < 0 \<or> int (length (epos s)) < k then (Some Panic, l1)
                    else
                      (let ps = drop (nat k) (epos s)
                       in if ps = [] then (Some Panic, l1)
                          else if length (ebuf s) < pos (ps ! 0) then (Some Panic, l1)
                          else
                            (let buf = drop (pos (ps ! 0)) (ebuf s);
                                 l2 = write_temp l1 tempFileName buf;
                                 startName = segmentName index @ startSuffix
                             in case fs_Rename (fs l2) tempFileName startName of
                                  Inl e \<Rightarrow> (Some e, l2)
                                | Inr d \<Rightarrow>
                                    recover_corrupt
                                      (truncateFront_cleanup (l2\<lparr>fs := d\<rparr>) index segIdx si
                                         (length buf) startName))))))"

text \<open>
  TruncateFront trims the front of the log by removing all entries that are before the
  provided offset.
\<close>

definition TruncateFront :: "log \<Rightarrow> int \<Rightarrow> error option \<times> log" where
  "TruncateFront l index =
     (if corrupt l then (Some ErrCorrupt, l)
      else if closed l then (Some ErrClosed, l)
      else truncateFront l index)"

text \<open>\<open>clear\<close> removes the files with \<open>os.Remove\<close> and ignores its errors.\<close>

definition clear :: "log \<Rightarrow> error option \<times> log" where
  "clear l =
     (let l1 = clearCache l;
          l2 = l1\<lparr>fs := fold (\<lambda>s d. fs_delete d (path s)) (segments l1) (fs l1)\<rparr>
      in createInitialSegment (l2\<lparr>segments := []\<rparr>) 0)"

definition Clear :: "log \<Rightarrow> error option \<times> log" where
  "Clear l =
     (if corrupt l then (Some ErrCorrupt, l)
      else if closed l then (Some ErrClosed, l)
      else clear l)"

text \<open>
  The part of \<open>truncateBack\<close> after the rename of the temp file to the END name; the
  order of \<open>clearCache\<close> and the new \<open>segments\<close> is as in \<open>truncateFront_cleanup\<close>.
\<close>

definition truncateBack_cleanup ::
  "log \<Rightarrow> int \<Rightarrow> int \<Rightarrow> nat \<Rightarrow> nat \<Rightarrow> string \<Rightarrow> error option \<times> log" where
  "truncateBack_cleanup l index segIdx si n0 endName =
     (case file_Close (sfile l) of
        Some e \<Rightarrow> (Some e, l)
      | None \<Rightarrow>
          (let l1 = l\<lparr>sfile := None\<rparr>
           in if segIdx < 0 then (Some Panic, l1)
              else case remove_segments l1 [nat segIdx ..< length (segments l1)] of
                (Some e, l2) \<Rightarrow> (Some e, l2)
              | (None, l2) \<Rightarrow>
                  (let newName = segmentName (offset (segments l2 ! si))
                   in case fs_Rename (fs l2) endName newName of
                        Inl e \<Rightarrow> (Some e, l2)
                      | Inr d \<Rightarrow>
                          (case reopen_tail (l2\<lparr>fs := d\<rparr>) newName n0 of
                             (Some e, l3) \<Rightarrow> (Some e, l3)
                           | (None, l3) \<Rightarrow>
                               if int (length (segments l3)) < segIdx + 1 then (Some Panic, l3)
                               else
                                 (let l4 = clearCache
                                             (l3\<lparr>segments := set_path (segments l3) si newName\<rparr>);
                                      l5 = l4\<lparr>segments := take (nat (segIdx + 1)) (segments l4),
                                              lastOffset := index\<rparr>
                                  in loadSegmentEntries l5 si)))))"

text \<open>
  \<open>truncateBackAll\<close>: \<open>clearCache\<close> runs after \<open>segments\<close> has become the one new
  segment, so it empties the cache and touches only segments that are no longer in the
  log.
\<close>

definition truncateBackAll_cleanup :: "log \<Rightarrow> int \<Rightarrow> string \<Rightarrow> error option \<times> log" where
  "truncateBackAll_cleanup l newFirstIndex tempName =
     (case file_Close (sfile l) of
        Some e \<Rightarrow> (Some e, l)
      | None \<Rightarrow>
          (case remove_segments (l\<lparr>sfile := None\<rparr>) [0 ..< length (segments l)] of
             (Some e, l2) \<Rightarrow> (Some e, l2)
           | (None, l2) \<Rightarrow>
               (let newName = segmentName newFirstIndex
                in case fs_Rename (fs l2) tempName newName of
                     Inl e \<Rightarrow> (Some e, l2)
                   | Inr d \<Rightarrow>
                       (case openFile (l2\<lparr>fs := d\<rparr>) newName of
                          Inl e \<Rightarrow> (Some e, l2\<lparr>fs := d, sfile := None\<rparr>)
                        | Inr f \<Rightarrow>
                            loadSegmentEntries
                              (l2\<lparr>fs := d, sfile := f,
                                 segments := [\<lparr>path = newName, offset = newFirstIndex,
                                               ebuf = [], epos = []\<rparr>],
                                 lastOffset := wrap64 (newFirstIndex - 1),
                                 scache := []\<rparr>) 0))))"

definition truncateBackAll :: "log \<Rightarrow> int \<Rightarrow> error option \<times> log" where
  "truncateBackAll l newFirstIndex =
     (if newFirstIndex = lastOffset l then (None, l)
      else
        (let tempName = segmentName newFirstIndex @ truncateSuffix
         in case openFile l tempName of
              Inl e \<Rightarrow> (Some e, l)
            | Inr f \<Rightarrow>
                (case file_Close f of
                   Some e \<Rightarrow> (Some e, l)
                 | None \<Rightarrow> recover_corrupt (truncateBackAll_cleanup l newFirstIndex tempName))))"

definition truncateBack :: "log \<Rightarrow> int \<Rightarrow> error option \<times> log" where
  "truncateBack l index =
     (if index = wrap64 (firstOffset l - 1) then truncateBackAll l (firstOffset l)
      else if index < firstOffset l \<or> index > lastOffset l then (Some ErrOutOfRange, l)
      else if index = lastOffset l then (None, l)
      else
        (let segIdx = findSegment l index
         in case loadSegment l index of
              (Inl e, l1) \<Rightarrow> (Some e, l1)
            | (Inr si, l1) \<Rightarrow>
                (let s = segments l1 ! si;
                     k = wrap64 (index - offset s + 1)
                 in if k < 0 \<or> int (length (epos s)) < k then (Some Panic, l1)
                    else
                      (let ps = take (nat k) (epos s)
                       in if ps = [] then (Some Panic, l1)
                          else if length (ebuf s) < bend (ps ! (length ps - 1))
                            then (Some Panic, l1)
                          else
                            (let buf = take (bend (ps ! (length ps - 1))) (ebuf s);
                                 l2 = write_temp l1 tempFileName buf;
                                 endName = segmentName (offset s) @ endSuffix
                             in case fs_Rename (fs l2) tempFileName endName of
                                  Inl e \<Rightarrow> (Some e, l2)
                                | Inr d \<Rightarrow>
                                    recover_corrupt
                                      (truncateBack_cleanup (l2\<lparr>fs := d\<rparr>) index segIdx si
                                         (length buf) endName))))))"

text \<open>
  TruncateBack truncates the back of the log by removing all entries that are after the
  provided offset.
\<close>

definition TruncateBack :: "log \<Rightarrow> int \<Rightarrow> error option \<times> log" where
  "TruncateBack l index =
     (if corrupt l then (Some ErrCorrupt, l)
      else if closed l then (Some ErrClosed, l)
      else truncateBack l index)"


subsection \<open>Runs of the log\<close>

text \<open>
  A caller fills a batch with \<open>Batch.Write\<close>, entry by entry, starting from the empty
  batch.
\<close>

definition new_batch :: "(int \<times> byte list) list \<Rightarrow> Batch" where
  "new_batch es = foldl (\<lambda>b e. Batch_Write b (fst e) (snd e)) \<lparr>entries = [], datas = []\<rparr> es"

datatype op =
    OpWrite int "byte list"
  | OpWriteBatch "(int \<times> byte list) list"
  | OpRead int
  | OpTruncateFront int
  | OpTruncateBack int
  | OpClear
  | OpSync
  | OpClearCache

fun apply_op :: "log \<Rightarrow> op \<Rightarrow> error option \<times> log" where
  "apply_op l (OpWrite off d) = Write l off d"
| "apply_op l (OpWriteBatch es) = WriteBatch l (new_batch es)"
| "apply_op l (OpRead off) =
     (case Read l off of (Inl e, l1) \<Rightarrow> (Some e, l1) | (Inr d, l1) \<Rightarrow> (None, l1))"
| "apply_op l (OpTruncateFront index) = TruncateFront l index"
| "apply_op l (OpTruncateBack index) = TruncateBack l index"
| "apply_op l OpClear = Clear l"
| "apply_op l OpSync = Sync l"
| "apply_op l OpClearCache = ClearCache l"

text \<open>A run of operations that all succeed ends in a log; the first error ends the run.\<close>

fun run :: "log \<Rightarrow> op list \<Rightarrow> error + log" where
  "run l [] = Inr l"
| "run l (x # xs) = (case apply_op l x of (Some e, l1) \<Rightarrow> Inl e | (None, l1) \<Rightarrow> run l1 xs)"

text \<open>The same, starting with \<open>open\<close> on an empty directory.\<close>

definition open_run :: "options option \<Rightarrow> op list \<Rightarrow> error + log" where
  "open_run optp xs = (case open_log [] optp of Inl e \<Rightarrow> Inl e | Inr l \<Rightarrow> run l xs)"

subsection \<open>Marker files of a directory\<close>

text \<open>
  A directory entry is a marker of a kind (START, END or TRUNCATE) when the scan of
  \<open>load\<close> reads it as one: twenty characters that parse as an offset other than \<open>-1\<close>,
  followed by the suffix of the kind.
\<close>

definition is_marker :: "string \<Rightarrow> string \<Rightarrow> bool" where
  "is_marker suffix name =
     (segmentFilenameLength \<le> length name
      \<and> (case ParseInt (take segmentFilenameLength name) of
            None \<Rightarrow> False | Some index \<Rightarrow> index \<noteq> - 1)
      \<and> length name = segmentFilenameLength + length suffix \<and> HasSuffix name suffix)"

definition count_markers :: "string \<Rightarrow> string list \<Rightarrow> nat" where
  "count_markers suffix fis = length (filter (is_marker suffix) fis)"

text \<open>Markers of two distinct kinds are present.\<close>

definition two_kinds :: "string list \<Rightarrow> bool" where
  "two_kinds fis =
     ((0 < count_markers startSuffix fis \<and> 0 < count_markers endSuffix fis)
      \<or> (0 < count_markers startSuffix fis \<and> 0 < count_markers truncateSuffix fis)
      \<or> (0 < count_markers truncateSuffix fis \<and> 0 < count_markers endSuffix fis))"

subsection \<open>The entries that a buffer encodes\<close>

text \<open>
  The framing of an entry, the buffer of a list of entries and the positions of the
  entries in it, counted from position \<open>p\<close>: the terms in which the properties of the
  log are stated.
\<close>

definition frame :: "byte list \<Rightarrow> byte list" where
  "frame d = put_uvarint (length d) @ d"

definition frames :: "byte list list \<Rightarrow> byte list" where
  "frames es = concat (map frame es)"

fun positions :: "nat \<Rightarrow> byte list list \<Rightarrow> bpos list" where
  "positions p [] = []"
| "positions p (e # es) =
     \<lparr>pos = p, bend = p + length (frame e)\<rparr> # positions (p + length (frame e)) es"

subsection \<open>The invariant of an open log\<close>

text \<open>
  The invariant relates the log to the entries \<open>ess\<close> that its segments hold, one list
  of entries for each segment. A segment whose file \<open>cycle\<close> has removed (the initial
  empty segment, left in \<open>segments\<close> after a jump) is stale; the segments from index \<open>h\<close>
  on are live. A live segment has its file, and its buffer is either resident or
  dropped; the tail is resident and its file holds the first \<open>mark\<close> bytes of the buffer.
\<close>

definition seg_stale :: "filesys \<Rightarrow> segment \<Rightarrow> bool" where
  "seg_stale d s =
     (offset s = 0 \<and> path s = segmentName 0 \<and> ebuf s = [] \<and> epos s = []
      \<and> fs_lookup d (path s) = None)"

definition seg_resident :: "segment \<Rightarrow> byte list list \<Rightarrow> bool" where
  "seg_resident s es = (ebuf s = frames es \<and> epos s = positions 0 es)"

definition seg_live :: "filesys \<Rightarrow> segment \<Rightarrow> byte list list \<Rightarrow> bool" where
  "seg_live d s es =
     (path s = segmentName (offset s) \<and> fs_lookup d (path s) = Some (frames es)
      \<and> (seg_resident s es \<or> (ebuf s = [] \<and> epos s = [])))"

definition tail_ok :: "filesys \<Rightarrow> segment \<Rightarrow> byte list list \<Rightarrow> nat \<Rightarrow> bool" where
  "tail_ok d s es mark =
     (path s = segmentName (offset s) \<and> mark \<le> length (frames es)
      \<and> fs_lookup d (path s) = Some (take mark (frames es)) \<and> seg_resident s es)"

definition segs_ok ::
  "filesys \<Rightarrow> segment list \<Rightarrow> byte list list list \<Rightarrow> nat \<Rightarrow> nat \<Rightarrow> bool" where
  "segs_ok d segs ess h mark =
     (length ess = length segs \<and> h < length segs
      \<and> (\<forall>i<h. seg_stale d (segs ! i) \<and> ess ! i = [])
      \<and> (\<forall>i. h \<le> i \<and> i + 1 < length segs \<longrightarrow> seg_live d (segs ! i) (ess ! i))
      \<and> tail_ok d (segs ! (length segs - 1)) (ess ! (length segs - 1)) mark
      \<and> (\<forall>i<length segs. \<forall>e\<in>set (ess ! i). length e < 2 ^ 63)
      \<and> 0 \<le> offset (segs ! 0)
      \<and> (\<forall>i. i + 1 < length segs \<longrightarrow>
            offset (segs ! i) + int (length (ess ! i)) \<le> offset (segs ! (i + 1))
            \<and> offset (segs ! i) < offset (segs ! (i + 1)))
      \<and> offset (segs ! (length segs - 1)) + int (length (ess ! (length segs - 1))) < 2 ^ 63
      \<and> (ess ! h = [] \<longrightarrow> h = length segs - 1)
      \<and> dom (fs_lookup d) = set (drop h (map path segs)))"

definition ginv :: "log \<Rightarrow> byte list list list \<Rightarrow> nat \<Rightarrow> nat \<Rightarrow> bool" where
  "ginv l ess h mark =
     (\<not> closed l \<and> \<not> corrupt l \<and> 0 < SegmentSize (opts l)
      \<and> segs_ok (fs l) (segments l) ess h mark
      \<and> firstOffset l = offset (segments l ! h)
      \<and> sfile l = Some (path (segments l ! (length (segments l) - 1)))
      \<and> (\<forall>k\<in>set (scache l). k + 1 < length (segments l)))"

text \<open>
  Between two operations the tail is flushed and the last index is not below the
  entries of the tail; it is exactly their last offset when the log is \<open>tight\<close>, which
  appends with consecutive offsets maintain.
\<close>

definition linv :: "log \<Rightarrow> byte list list list \<Rightarrow> nat \<Rightarrow> bool" where
  "linv l ess h =
     (ginv l ess h (length (frames (ess ! (length (segments l) - 1))))
      \<and> offset (segments l ! (length (segments l) - 1))
          + int (length (ess ! (length (segments l) - 1))) \<le> lastOffset l + 1
      \<and> lastOffset l < 2 ^ 63 - 1
      \<and> (ess ! (length (segments l) - 1) = [] \<longrightarrow>
            lastOffset l = offset (segments l ! (length (segments l) - 1)) - 1)
      \<and> (ess ! h = [] \<longrightarrow> offset (segments l ! h) = 0))"

definition tight :: "log \<Rightarrow> byte list list list \<Rightarrow> bool" where
  "tight l ess =
     (lastOffset l = offset (segments l ! (length (segments l) - 1))
                     + int (length (ess ! (length (segments l) - 1))) - 1)"

text \<open>The entry \<open>b\<close> is stored for the offset \<open>off\<close>.\<close>

definition covers :: "int list \<Rightarrow> byte list list list \<Rightarrow> int \<Rightarrow> byte list \<Rightarrow> bool" where
  "covers offs ess off b =
     (\<exists>i<length offs. offs ! i \<le> off \<and> off < offs ! i + int (length (ess ! i))
        \<and> ess ! i ! nat (off - offs ! i) = b)"

text \<open>Two logs that differ at most in the buffers of their segments and in the cache.\<close>

definition unchanged :: "log \<Rightarrow> log \<Rightarrow> bool" where
  "unchanged l l' =
     (opts l' = opts l \<and> closed l' = closed l \<and> corrupt l' = corrupt l
      \<and> firstOffset l' = firstOffset l \<and> lastOffset l' = lastOffset l
      \<and> sfile l' = sfile l \<and> fs l' = fs l
      \<and> map offset (segments l') = map offset (segments l)
      \<and> map path (segments l') = map path (segments l))"


section \<open>Properties\<close>

subsection \<open>The varint codec\<close>

lemma byte_cont_ge: "\<not> ((of_nat x OR 128 :: 8 word) < 128)"
  using le_word_or1[of 128 "of_nat x :: 8 word"] by (simp add: not_less)

lemma byte_cont_and: "((w::8 word) OR 128) AND 127 = take_bit 7 w"
proof -
  have "(127 :: 8 word) = mask 7" by (simp add: mask_eq_exp_minus_1)
  moreover have "(128 :: 8 word) AND mask 7 = 0" by (simp add: mask_eq_exp_minus_1)
  ultimately show ?thesis
    by (simp add: bit.conj_disj_distrib2 take_bit_eq_mask)
qed

lemma byte_cont_unat: "unat ((of_nat x OR 128 :: 8 word) AND 127) = x mod 128"
proof -
  have "unat (take_bit 7 (of_nat x :: 8 word)) = (x mod 256) mod 128"
    by (simp add: unat_of_nat take_bit_eq_mod unat_mod)
  also have "\<dots> = x mod 128" by (simp add: mod_mod_cancel)
  finally show ?thesis by (simp add: byte_cont_and)
qed

lemma or_push_bit_add: "(x::nat) < 2^s \<Longrightarrow> x OR push_bit s y = x + y * 2^s"
proof -
  assume a: "x < 2 ^ s"
  then have t: "take_bit s x = x" by (simp add: take_bit_eq_mod)
  have "x AND push_bit s y = 0"
  proof (rule bit_eqI)
    fix n
    have "bit x n \<Longrightarrow> n < s" using bit_take_bit_iff[of s x n] t by simp
    then show "bit (x AND push_bit s y) n = bit (0::nat) n"
      by (auto simp: bit_simps)
  qed
  then show ?thesis
    by (simp add: disjunctive_add_eq_or[symmetric] push_bit_eq_mult)
qed

lemma put_uvarint_small: "x < 128 \<Longrightarrow> put_uvarint x = [of_nat x]"
  by (simp add: put_uvarint.simps[of x])

lemma put_uvarint_big: "\<not> x < 128 \<Longrightarrow> put_uvarint x = (of_nat x OR 128) # put_uvarint (x div 128)"
  by (simp add: put_uvarint.simps[of x] drop_bit_eq_div)

lemma put_uvarint_nonempty: "put_uvarint x \<noteq> []"
  by (cases "x < 128") (simp_all add: put_uvarint_small put_uvarint_big)

lemma byte_small: "x < 128 \<Longrightarrow> (of_nat x :: 8 word) < 128 \<and> unat (of_nat x :: 8 word) = x"
  by (simp add: unat_of_nat word_less_nat_alt)

lemma uvarint_go_put:
  "i \<le> 9 \<Longrightarrow> acc < 2 ^ (7 * i) \<Longrightarrow> x < 2 ^ (64 - 7 * i) \<Longrightarrow>
   uvarint_go i (7 * i) acc (put_uvarint x @ rest)
     = (acc + x * 2 ^ (7 * i), int i + int (length (put_uvarint x)))"
proof (induction x arbitrary: i acc rule: put_uvarint.induct)
  case (1 x)
  show ?case
  proof (cases "x < 128")
    case True
    have "acc + x * 2 ^ (7 * i) < 2 ^ 64"
    proof -
      have "acc + x * 2 ^ (7 * i) < 2 ^ (7 * i) + x * 2 ^ (7 * i)" using "1.prems" by simp
      also have "\<dots> = (x + 1) * 2 ^ (7 * i)" by simp
      also have "\<dots> \<le> 2 ^ (64 - 7 * i) * 2 ^ (7 * i)"
        using "1.prems" by (intro mult_right_mono) auto
      also have "\<dots> = 2 ^ ((64 - 7 * i) + 7 * i)" by (rule power_add[symmetric])
      also have "(64 - 7 * i) + 7 * i = 64" using "1.prems" by simp
      finally show ?thesis .
    qed
    moreover have "i = 9 \<Longrightarrow> \<not> (1 < (of_nat x :: 8 word))"
    proof -
      assume "i = 9"
      with "1.prems" have "x < 2" by simp
      then have "x = 0 \<or> x = 1" by auto
      then show ?thesis by auto
    qed
    ultimately show ?thesis
      using True "1.prems" byte_small[OF True]
      by (auto simp: put_uvarint_small or_push_bit_add take_bit_eq_mod)
  next
    case False
    have i8: "i \<le> 8"
    proof (rule ccontr)
      assume "\<not> i \<le> 8"
      with "1.prems" have "i = 9" by simp
      with "1.prems" have "x < 2" by simp
      with False show False by simp
    qed
    let ?acc = "acc + (x mod 128) * 2 ^ (7 * i)"
    have acc': "?acc < 2 ^ (7 * (i + 1))"
    proof -
      have "?acc < 2 ^ (7 * i) + (x mod 128) * 2 ^ (7 * i)" using "1.prems" by simp
      also have "\<dots> = (x mod 128 + 1) * 2 ^ (7 * i)" by simp
      also have "\<dots> \<le> 128 * 2 ^ (7 * i)" by (intro mult_right_mono) auto
      also have "\<dots> = 2 ^ (7 * (i + 1))" by (simp add: power_add)
      finally show ?thesis .
    qed
    have lt64: "?acc < 2 ^ 64"
    proof -
      have "(2::nat) ^ (7 * (i + 1)) \<le> 2 ^ 64" using i8 by (intro power_increasing) auto
      with acc' show ?thesis by linarith
    qed
    have x': "x div 128 < 2 ^ (64 - 7 * (i + 1))"
    proof -
      have "64 - 7 * i = (64 - 7 * (i + 1)) + 7" using i8 by simp
      then have "(2::nat) ^ (64 - 7 * i) = 2 ^ ((64 - 7 * (i + 1)) + 7)" by (simp only:)
      also have "\<dots> = 2 ^ (64 - 7 * (i + 1)) * 2 ^ 7" by (rule power_add)
      finally have "x < 2 ^ (64 - 7 * (i + 1)) * 128" using "1.prems"(3) by simp
      then show ?thesis by (simp add: less_mult_imp_div_less)
    qed
    have ih: "uvarint_go (i + 1) (7 * (i + 1)) ?acc (put_uvarint (x div 128) @ rest)
        = (?acc + (x div 128) * 2 ^ (7 * (i + 1)), int (i + 1) + int (length (put_uvarint (x div 128))))"
      using "1.IH"[OF False, of "i + 1" ?acc] i8 acc' x' by (simp add: drop_bit_eq_div)
    have val: "?acc + (x div 128) * 2 ^ (7 * (i + 1)) = acc + x * 2 ^ (7 * i)"
    proof -
      have p: "(2::nat) ^ (7 * (i + 1)) = 128 * 2 ^ (7 * i)" by (simp add: power_add)
      have g: "\<And>r q P :: nat. r * P + q * (128 * P) = (r + 128 * q) * P"
        by (simp add: algebra_simps)
      have "x mod 128 + 128 * (x div 128) = x" by simp
      then have "(x mod 128) * 2 ^ (7 * i) + (x div 128) * (128 * 2 ^ (7 * i)) = x * 2 ^ (7 * i)"
        by (simp only: g)
      then show ?thesis by (simp only: p add.assoc)
    qed
    have s7: "7 * i + 7 = 7 * (i + 1)" by simp
    show ?thesis
      using i8 False ih val lt64 "1.prems"(2)
      by (simp add: put_uvarint_big byte_cont_ge byte_cont_unat or_push_bit_add take_bit_eq_mod s7 del: mult_Suc_right)
  qed
qed

lemma uvarint_put:
  "x < 2 ^ 64 \<Longrightarrow> uvarint (put_uvarint x @ rest) = (x, int (length (put_uvarint x)))"
  using uvarint_go_put[of 0 0 x rest] by (simp add: uvarint_def)

lemma frame_nonempty: "frame d \<noteq> []"
  by (simp add: frame_def put_uvarint_nonempty)

lemma frames_Nil [simp]: "frames [] = []"
  by (simp add: frames_def)

lemma frames_Cons: "frames (e # es) = frame e @ frames es"
  by (simp add: frames_def)

lemma frames_append: "frames (xs @ ys) = frames xs @ frames ys"
  by (simp add: frames_def)

lemma frames_snoc: "frames (es @ [e]) = frames es @ frame e"
  by (simp add: frames_def)

lemma frames_eq_Nil: "(frames es = []) = (es = [])"
  by (cases es) (simp_all add: frames_Cons frame_nonempty)

lemma appendEntry_frame:
  "length d < 2 ^ 64 \<Longrightarrow>
   appendEntry buf d = (buf @ frame d, \<lparr>pos = length buf, bend = length buf + length (frame d)\<rparr>)"
  by (simp add: appendEntry_def appendUvarint_def frame_def Let_def)

lemma uvarint_frame:
  "length d < 2 ^ 64 \<Longrightarrow> uvarint (frame d @ rest) = (length d, int (length (put_uvarint (length d))))"
  using uvarint_put[of "length d" "d @ rest"] by (simp add: frame_def)

lemma loadNextEntry_frame:
  "length d < 2 ^ 64 \<Longrightarrow> loadNextEntry (frame d @ rest) = Inr (length (frame d))"
  using put_uvarint_nonempty[of "length d"]
  by (simp add: loadNextEntry_def uvarint_frame) (simp add: frame_def)

lemma load_entries_frames:
  "\<forall>e\<in>set es. length e < 2 ^ 64 \<Longrightarrow> load_entries p (frames es) = Inr (positions p es)"
proof (induction es arbitrary: p)
  case Nil
  then show ?case by (simp add: load_entries.simps[of p "[]"])
next
  case (Cons e es)
  have ne: "frame e @ frames es \<noteq> []" using frame_nonempty[of e] by simp
  have ln: "loadNextEntry (frame e @ frames es) = Inr (length (frame e))"
    using Cons.prems by (simp add: loadNextEntry_frame)
  have pos: "0 < length (frame e)" using frame_nonempty[of e] by simp
  show ?case
    using Cons.IH[of "p + length (frame e)"] Cons.prems ne ln pos
    by (simp add: load_entries.simps[of p "frame e @ frames es"] frames_Cons)
qed

lemma length_positions [simp]: "length (positions p es) = length es"
  by (induction es arbitrary: p) simp_all

lemma positions_snoc:
  "positions p (es @ [e]) =
     positions p es @ [\<lparr>pos = p + length (frames es), bend = p + length (frames es) + length (frame e)\<rparr>]"
  by (induction es arbitrary: p) (simp_all add: frames_Cons add.assoc)

lemma positions_nth:
  "i < length es \<Longrightarrow>
   positions p es ! i = \<lparr>pos = p + length (frames (take i es)),
                          bend = p + length (frames (take i es)) + length (frame (es ! i))\<rparr>"
proof (induction es arbitrary: p i)
  case Nil
  then show ?case by simp
next
  case (Cons e es)
  then show ?case by (cases i) (simp_all add: frames_Cons add.assoc)
qed

lemma frames_take_drop:
  "frames es = frames (take i es) @ frames (drop i es)"
  by (metis append_take_drop_id frames_append)

lemma drop_frames: "drop (length (frames (take i es))) (frames es) = frames (drop i es)"
  by (subst frames_take_drop[of es i]) simp

lemma take_frames: "take (length (frames (take i es))) (frames es) = frames (take i es)"
  by (subst frames_take_drop[of es i]) simp

lemma frames_slice:
  "i < length es \<Longrightarrow>
   take (length (frame (es ! i))) (drop (length (frames (take i es))) (frames es)) = frame (es ! i)"
  by (simp add: drop_frames Cons_nth_drop_Suc[symmetric] frames_Cons)

lemma decode_frame:
  assumes "length d < 2 ^ 64"
  shows "(case uvarint (frame d) of (sz, n) \<Rightarrow>
           0 < n \<and> \<not> int (length (frame d)) - n < int sz
           \<and> take (nat n + sz - nat n) (drop (nat n) (frame d)) = d
           \<and> take sz (drop (nat n) (frame d)) = d)"
  using uvarint_frame[OF assms, of "[]"] put_uvarint_nonempty[of "length d"]
  by (simp add: frame_def)

subsection \<open>Segment names\<close>

lemma of_char_digit_char: "d < 10 \<Longrightarrow> (of_char (digit_char d) :: nat) = 48 + d"
  by (simp add: digit_char_def)

lemma is_digit_digit_char: "d < 10 \<Longrightarrow> is_digit (digit_char d)"
  by (simp add: is_digit_def of_char_digit_char)

lemma digits_val_append: "digits_val acc (xs @ ys) = digits_val (digits_val acc xs) ys"
  by (induction xs arbitrary: acc) simp_all

lemma digits_val_dec: "digits_val acc (dec n) = acc * 10 ^ length (dec n) + n"
proof (induction n arbitrary: acc rule: dec.induct)
  case (1 n)
  show ?case
  proof (cases "n < 10")
    case True
    then show ?thesis by (simp add: dec.simps[of n] of_char_digit_char)
  next
    case False
    have "n mod 10 < 10" by simp
    then show ?thesis
      using "1.IH"[OF False, of acc] False
      by (simp add: dec.simps[of n] digits_val_append of_char_digit_char algebra_simps)
  qed
qed

lemma dec_digits: "list_all is_digit (dec n)"
proof (induction n rule: dec.induct)
  case (1 n)
  show ?case
  proof (cases "n < 10")
    case True
    then show ?thesis by (simp add: dec.simps[of n] is_digit_digit_char)
  next
    case False
    have "n mod 10 < 10" by simp
    then show ?thesis using "1.IH"[OF False] False
      by (simp add: dec.simps[of n] is_digit_digit_char)
  qed
qed

lemma dec_nonempty: "dec n \<noteq> []"
  by (cases "n < 10") (simp_all add: dec.simps[of n])

lemma length_dec: "n < 10 ^ k \<Longrightarrow> 0 < k \<Longrightarrow> length (dec n) \<le> k"
proof (induction n arbitrary: k rule: dec.induct)
  case (1 n)
  show ?case
  proof (cases "n < 10")
    case True
    then show ?thesis using "1.prems" by (simp add: dec.simps[of n])
  next
    case False
    obtain k' where k: "k = Suc k'" using "1.prems" by (cases k) auto
    have "k' \<noteq> 0" using False "1.prems" k by (cases k') auto
    moreover have "n div 10 < 10 ^ k'" using "1.prems" k by (simp add: less_mult_imp_div_less mult.commute)
    ultimately have "length (dec (n div 10)) \<le> k'" using "1.IH"[OF False, of k'] by simp
    then show ?thesis using False k by (simp add: dec.simps[of n])
  qed
qed

lemma digits_val_zeros: "digits_val 0 (replicate z (CHR ''0'')) = 0"
  by (induction z) simp_all

lemma zero_digit: "is_digit (CHR ''0'')"
  by (simp add: is_digit_def)

lemma segmentName_nonneg: "0 \<le> k \<Longrightarrow> segmentName k = zero_pad 20 (dec (nat k))"
  by (simp add: segmentName_def)

lemma length_segmentName: "0 \<le> k \<Longrightarrow> k < 2 ^ 63 \<Longrightarrow> length (segmentName k) = 20"
proof -
  assume a: "0 \<le> k" "k < 2 ^ 63"
  then have "nat k < 10 ^ 20" by (simp add: nat_less_iff)
  then have "length (dec (nat k)) \<le> 20" by (intro length_dec) auto
  with a show ?thesis by (simp add: segmentName_nonneg zero_pad_def)
qed

lemma digits_segmentName: "0 \<le> k \<Longrightarrow> list_all is_digit (segmentName k)"
  using dec_digits[of "nat k"]
  by (auto simp: segmentName_nonneg zero_pad_def zero_digit list_all_iff)

lemma digits_val_segmentName: "0 \<le> k \<Longrightarrow> digits_val 0 (segmentName k) = nat k"
  by (simp add: segmentName_nonneg zero_pad_def digits_val_append digits_val_zeros digits_val_dec)

lemma digit_not_sign: "is_digit c \<Longrightarrow> c \<noteq> CHR ''-'' \<and> c \<noteq> CHR ''+''"
  by (auto simp: is_digit_def)

lemma ParseInt_segmentName:
  assumes "0 \<le> k" "k < 2 ^ 63"
  shows "ParseInt (segmentName k) = Some k"
proof -
  have ne: "segmentName k \<noteq> []" using length_segmentName[OF assms] by auto
  have d: "list_all is_digit (segmentName k)" by (rule digits_segmentName[OF assms(1)])
  then have "is_digit (hd (segmentName k))" using ne by (cases "segmentName k") auto
  then have h: "hd (segmentName k) \<noteq> CHR ''-''" "hd (segmentName k) \<noteq> CHR ''+''"
    using digit_not_sign by auto
  show ?thesis
    using ne d h assms by (simp add: ParseInt_def digits_val_segmentName Let_def)
qed

lemma segmentName_inj:
  "0 \<le> a \<Longrightarrow> a < 2 ^ 63 \<Longrightarrow> 0 \<le> b \<Longrightarrow> b < 2 ^ 63 \<Longrightarrow> segmentName a = segmentName b \<Longrightarrow> a = b"
proof -
  assume a: "0 \<le> a" "a < 2 ^ 63" and b: "0 \<le> b" "b < 2 ^ 63"
    and eq: "segmentName a = segmentName b"
  have "Some a = ParseInt (segmentName a)" using ParseInt_segmentName[OF a] by (rule sym)
  also have "\<dots> = ParseInt (segmentName b)" by (simp only: eq)
  also have "\<dots> = Some b" by (rule ParseInt_segmentName[OF b])
  finally show "a = b" by simp
qed

lemma digits_val_acc: "digits_val acc xs = acc * 10 ^ length xs + digits_val 0 xs"
proof (induction xs arbitrary: acc)
  case Nil
  then show ?case by simp
next
  case (Cons c cs)
  show ?case
    using Cons.IH[of "acc * 10 + (of_char c - 48)"] Cons.IH[of "of_char c - 48"]
    by (simp add: algebra_simps)
qed

lemma digits_val_bound: "list_all is_digit xs \<Longrightarrow> digits_val 0 xs < 10 ^ length xs"
proof (induction xs)
  case Nil
  then show ?case by simp
next
  case (Cons c cs)
  then have d: "(of_char c :: nat) - 48 \<le> 9" and r: "digits_val 0 cs < 10 ^ length cs"
    by (auto simp: is_digit_def)
  have "digits_val 0 (c # cs) = (of_char c - 48) * 10 ^ length cs + digits_val 0 cs"
    using digits_val_acc[of "of_char c - 48" cs] by simp
  also have "\<dots> < (of_char c - 48) * 10 ^ length cs + 10 ^ length cs" using r by simp
  also have "\<dots> = (of_char c - 48 + 1) * 10 ^ length cs" by simp
  also have "\<dots> \<le> 10 * 10 ^ length cs" using d by (intro mult_right_mono) auto
  finally show ?case by simp
qed

lemma digit_char_less:
  "is_digit c1 \<Longrightarrow> is_digit c2 \<Longrightarrow> (of_char c1 :: nat) - 48 < of_char c2 - 48 \<Longrightarrow> c1 < c2"
  by (auto simp: is_digit_def less_char_def)

lemma digit_char_eq:
  "is_digit c1 \<Longrightarrow> is_digit c2 \<Longrightarrow> (of_char c1 :: nat) - 48 = of_char c2 - 48 \<Longrightarrow> c1 = c2"
proof -
  assume "is_digit c1" "is_digit c2" "(of_char c1 :: nat) - 48 = of_char c2 - 48"
  then have "(of_char c1 :: nat) = of_char c2" unfolding is_digit_def by linarith
  then show ?thesis by simp
qed

lemma lex_digits:
  "length xs = length ys \<Longrightarrow> list_all is_digit xs \<Longrightarrow> list_all is_digit ys \<Longrightarrow>
   digits_val 0 xs < digits_val 0 ys \<Longrightarrow> xs < ys"
proof (induction xs ys rule: list_induct2)
  case Nil
  then show ?case by simp
next
  case (Cons c1 xs c2 ys)
  let ?d1 = "(of_char c1 :: nat) - 48" and ?d2 = "(of_char c2 :: nat) - 48"
  let ?P = "(10::nat) ^ length xs"
  have v1: "digits_val 0 (c1 # xs) = ?d1 * ?P + digits_val 0 xs"
    using digits_val_acc[of ?d1 xs] by simp
  have v2: "digits_val 0 (c2 # ys) = ?d2 * ?P + digits_val 0 ys"
    using digits_val_acc[of ?d2 ys] Cons.hyps by simp
  have b1: "digits_val 0 xs < ?P" using Cons.prems by (simp add: digits_val_bound)
  have b2: "digits_val 0 ys < ?P" using Cons.prems Cons.hyps digits_val_bound[of ys] by simp
  have lt: "?d1 * ?P + digits_val 0 xs < ?d2 * ?P + digits_val 0 ys"
    using Cons.prems v1 v2 by simp
  have dg: "is_digit c1" "is_digit c2" using Cons.prems by simp_all
  consider (less) "?d1 < ?d2" | (eq) "?d1 = ?d2" | (gr) "?d2 < ?d1" by linarith
  then show ?case
  proof cases
    case less
    then have "c1 < c2" using dg by (intro digit_char_less)
    then show ?thesis by simp
  next
    case eq
    then have c: "c1 = c2" using dg by (intro digit_char_eq)
    from eq lt have "digits_val 0 xs < digits_val 0 ys" by simp
    then have "xs < ys" using Cons.IH Cons.prems by simp
    with c show ?thesis by simp
  next
    case gr
    then have "?d2 + 1 \<le> ?d1" by simp
    then have "(?d2 + 1) * ?P \<le> ?d1 * ?P" by (intro mult_right_mono) auto
    then have "?d2 * ?P + ?P \<le> ?d1 * ?P" by simp
    with b2 lt show ?thesis by linarith
  qed
qed

lemma segmentName_less:
  assumes "0 \<le> a" "a < b" "b < 2 ^ 63"
  shows "segmentName a < segmentName b"
proof -
  have a: "0 \<le> a" "a < 2 ^ 63" and b: "0 \<le> b" "b < 2 ^ 63" using assms by auto
  show ?thesis
    using length_segmentName[OF a] length_segmentName[OF b] digits_segmentName[OF a(1)]
      digits_segmentName[OF b(1)] digits_val_segmentName[OF a(1)] digits_val_segmentName[OF b(1)]
      assms
    by (intro lex_digits) auto
qed

subsection \<open>The filesystem and the search for a segment\<close>

lemma fs_lookup_store [simp]:
  "fs_lookup (fs_store d n x) m = (if m = n then Some x else fs_lookup d m)"
  by (induction d) (auto simp: fs_lookup_def fs_store_def)

lemma fs_lookup_delete [simp]:
  "fs_lookup (fs_delete d n) m = (if m = n then None else fs_lookup d m)"
  by (induction d) (auto simp: fs_lookup_def fs_delete_def)

lemma dom_fs_store [simp]: "dom (fs_lookup (fs_store d n x)) = insert n (dom (fs_lookup d))"
  by (auto simp: dom_def)

lemma dom_fs_delete [simp]: "dom (fs_lookup (fs_delete d n)) = dom (fs_lookup d) - {n}"
  by (auto simp: dom_def)

lemma fs_ReadDir_sorted_list: "fs_ReadDir d = sorted_list_of_set (dom (fs_lookup d))"
proof -
  have "fs_lookup d = map_of d" by (rule ext) (simp add: fs_lookup_def)
  then have "dom (fs_lookup d) = set (map fst d)"
    by (simp add: dom_map_of_conv_image_fst)
  then show ?thesis
    by (simp only: fs_ReadDir_def sorted_list_of_set_sort_remdups)
qed

lemma fs_Remove_Inr:
  "fs_Remove d n = Inr d' \<longleftrightarrow> (fs_lookup d n \<noteq> None \<and> d' = fs_delete d n)"
  by (auto simp: fs_Remove_def split: option.splits)

lemma fs_Rename_Inr:
  "fs_Rename d old new = Inr d' \<longleftrightarrow>
     (\<exists>x. fs_lookup d old = Some x \<and> d' = (if old = new then d else fs_store (fs_delete d old) new x))"
  by (auto simp: fs_Rename_def split: option.splits)

lemma file_Write_Inr:
  "file_Write d f x = Inr d' \<longleftrightarrow>
     (\<exists>n y. f = Some n \<and> fs_lookup d n = Some y \<and> d' = fs_store d n (y @ x))"
  by (auto simp: file_Write_def split: option.splits)

lemma findSegment_go_spec:
  "(\<forall>a b. a \<le> b \<and> b < length segs \<longrightarrow> offset (segs ! a) \<le> offset (segs ! b)) \<Longrightarrow>
     i \<le> j \<Longrightarrow> j \<le> length segs \<Longrightarrow> (\<forall>k<i. offset (segs ! k) \<le> index) \<Longrightarrow>
     (\<forall>k. j \<le> k \<and> k < length segs \<longrightarrow> index < offset (segs ! k)) \<Longrightarrow>
     findSegment_go segs index i j \<le> length segs
     \<and> (\<forall>k<findSegment_go segs index i j. offset (segs ! k) \<le> index)
     \<and> (\<forall>k. findSegment_go segs index i j \<le> k \<and> k < length segs \<longrightarrow> index < offset (segs ! k))"
proof (induction segs index i j rule: findSegment_go.induct)
  case (1 segs index i j)
  note u = findSegment_go.simps[of segs index i j]
  have sorted: "\<And>a b. a \<le> b \<Longrightarrow> b < length segs \<Longrightarrow> offset (segs ! a) \<le> offset (segs ! b)"
    using "1.prems"(1) by blast
  show ?case
  proof (cases "i < j")
    case False
    then have r: "findSegment_go segs index i j = i" by (simp add: u)
    from False "1.prems" have "i = j" by simp
    with "1.prems" show ?thesis unfolding r by simp
  next
    case True
    let ?h = "i + (j - i) div 2"
    have h: "i \<le> ?h" "?h < j" using True by auto
    show ?thesis
    proof (cases "index \<ge> offset (segs ! ?h)")
      case ge: True
      have "\<forall>k<?h + 1. offset (segs ! k) \<le> index"
      proof (intro allI impI)
        fix k assume "k < ?h + 1"
        then have kh: "k \<le> ?h" by simp
        have hl: "?h < length segs" using h "1.prems" by simp
        have "offset (segs ! k) \<le> offset (segs ! ?h)" by (rule sorted[OF kh hl])
        with ge show "offset (segs ! k) \<le> index" by simp
      qed
      then have a: "\<forall>k<?h + 1. offset (segs ! k) \<le> index" .
      have r: "findSegment_go segs index i j = findSegment_go segs index (?h + 1) j"
        using True ge by (simp add: u Let_def)
      have le: "?h + 1 \<le> j" using h by simp
      show ?thesis
        unfolding r by (rule "1.IH"(1)[OF True refl ge "1.prems"(1) le "1.prems"(3) a "1.prems"(5)])
    next
      case lt: False
      have "\<forall>k. ?h \<le> k \<and> k < length segs \<longrightarrow> index < offset (segs ! k)"
      proof (intro allI impI)
        fix k assume "?h \<le> k \<and> k < length segs"
        then have hk: "?h \<le> k" and kl: "k < length segs" by simp_all
        have "offset (segs ! ?h) \<le> offset (segs ! k)" by (rule sorted[OF hk kl])
        with lt show "index < offset (segs ! k)" by simp
      qed
      then have a: "\<forall>k. ?h \<le> k \<and> k < length segs \<longrightarrow> index < offset (segs ! k)" .
      have r: "findSegment_go segs index i j = findSegment_go segs index i ?h"
        using True lt by (simp add: u Let_def)
      have le: "?h \<le> length segs" using h "1.prems" by simp
      show ?thesis
        unfolding r by (rule "1.IH"(2)[OF True refl lt "1.prems"(1) h(1) le "1.prems"(4) a])
    qed
  qed
qed

lemma findSegment_unique:
  assumes sorted: "\<forall>a b. a \<le> b \<and> b < length (segments l) \<longrightarrow>
              offset (segments l ! a) \<le> offset (segments l ! b)"
    and i: "i < length (segments l)" "offset (segments l ! i) \<le> index"
    and nxt: "i + 1 < length (segments l) \<longrightarrow> index < offset (segments l ! (i + 1))"
  shows "findSegment l index = int i"
proof -
  let ?r = "findSegment_go (segments l) index 0 (length (segments l))"
  have spec: "?r \<le> length (segments l)" "\<forall>k<?r. offset (segments l ! k) \<le> index"
    "\<forall>k. ?r \<le> k \<and> k < length (segments l) \<longrightarrow> index < offset (segments l ! k)"
    using findSegment_go_spec[OF sorted, of 0 "length (segments l)" index] by auto
  have "i < ?r"
  proof (rule ccontr)
    assume "\<not> i < ?r"
    then have "index < offset (segments l ! i)" using spec(3) i(1) by auto
    with i(2) show False by simp
  qed
  moreover have "?r \<le> i + 1"
  proof (rule ccontr)
    assume "\<not> ?r \<le> i + 1"
    then have a: "i + 1 < ?r" by simp
    then have "offset (segments l ! (i + 1)) \<le> index" using spec(2) by blast
    moreover have "i + 1 < length (segments l)" using a spec(1) by simp
    ultimately show False using nxt by simp
  qed
  ultimately have "?r = i + 1" by simp
  then show ?thesis by (simp add: findSegment_def)
qed

subsection \<open>The errors of the read path\<close>

lemma loadNextEntry_err: "loadNextEntry d = Inl e \<Longrightarrow> e = ErrCorrupt"
  by (auto simp: loadNextEntry_def split: prod.splits if_splits)

lemma load_entries_err: "load_entries p d = Inl e \<Longrightarrow> e = ErrCorrupt \<or> e = Panic"
proof (induction p d rule: load_entries.induct)
  case (1 p data)
  note u = "1.prems"[unfolded load_entries.simps[of p data]]
  show ?case
  proof (cases "data = []")
    case True
    with u show ?thesis by simp
  next
    case False
    show ?thesis
    proof (cases "loadNextEntry data")
      case (Inl a)
      with False u show ?thesis
        by (auto dest: loadNextEntry_err)
    next
      case (Inr n)
      show ?thesis
      proof (cases "n = 0 \<or> length data < n")
        case True
        with False Inr u show ?thesis by auto
      next
        case nz: False
        with False Inr u "1.IH"[OF False Inr nz] show ?thesis
          by (auto split: sum.splits)
      qed
    qed
  qed
qed

lemma loadSegmentEntries_err:
  "loadSegmentEntries l i = (Some e, l') \<Longrightarrow> e = ErrNotExist \<or> e = ErrCorrupt \<or> e = Panic"
  by (auto simp: loadSegmentEntries_def fs_ReadFile_def split: sum.splits option.splits
      dest: load_entries_err)

lemma loadSegment_err: "fst (loadSegment l index) = Inl e \<Longrightarrow> e \<noteq> ErrNotFound"
proof -
  assume a: "fst (loadSegment l index) = Inl e"
  let ?idx = "findSegment l index"
  let ?r = "(if length (epos (segments l ! nat ?idx)) = 0
             then loadSegmentEntries l (nat ?idx) else (None, l))"
  show ?thesis
  proof (cases "segments l = [] \<or> ?idx < 0 \<or> int (length (segments l)) \<le> ?idx")
    case True
    with a show ?thesis
      by (auto simp: loadSegment_def Let_def split: if_splits option.splits)
  next
    case False
    obtain eo l1 where r: "?r = (eo, l1)" by (cases ?r)
    show ?thesis
    proof (cases eo)
      case None
      with a r False show ?thesis
        by (auto simp: loadSegment_def Let_def split: if_splits option.splits)
    next
      case (Some e')
      with r have "loadSegmentEntries l (nat ?idx) = (Some e', l1)"
        by (auto split: if_splits)
      then have "e' \<noteq> ErrNotFound" by (auto dest: loadSegmentEntries_err)
      with a r False Some show ?thesis
        by (auto simp: loadSegment_def Let_def split: if_splits option.splits)
    qed
  qed
qed

subsection \<open>Opening an empty directory; the marker check\<close>

lemma fs_ReadDir_empty: "fs_ReadDir [] = []"
  by (simp add: fs_ReadDir_def)

lemma wrap64_id: "- (2 ^ 63) \<le> x \<Longrightarrow> x < 2 ^ 63 \<Longrightarrow> wrap64 x = x"
  by (simp add: wrap64_def)

lemma open_log_empty:
  "\<exists>o'. 0 < SegmentSize o' \<and> 0 < SegmentCacheSize o' \<and> open_log [] optp =
     Inr \<lparr>opts = o', closed = False, corrupt = False,
          segments = [\<lparr>path = segmentName 0, offset = 0, ebuf = [], epos = []\<rparr>],
          firstOffset = 0, lastOffset = - 1, sfile = Some (segmentName 0), scache = [],
          fs = [(segmentName 0, [])]\<rparr>"
  by (cases optp)
     (auto simp: open_log_def OpenWithShard_def load_def fs_ReadDir_empty createInitialSegment_def
       newFile_def fs_store_def wrap64_id Let_def DefaultOptions_def)

lemma is_marker_excl:
  "is_marker startSuffix n \<Longrightarrow> \<not> is_marker endSuffix n \<and> \<not> is_marker truncateSuffix n"
  "is_marker endSuffix n \<Longrightarrow> \<not> is_marker startSuffix n \<and> \<not> is_marker truncateSuffix n"
  "is_marker truncateSuffix n \<Longrightarrow> \<not> is_marker startSuffix n \<and> \<not> is_marker endSuffix n"
  by (auto simp: is_marker_def startSuffix_def endSuffix_def truncateSuffix_def)

lemma load_scan_step:
  "load_scan (name # fis) segs s e t =
     (if is_marker startSuffix name then
        load_scan fis (segs @ [\<lparr>path = name, offset = the (ParseInt (take segmentFilenameLength name)),
               ebuf = [], epos = []\<rparr>]) (int (length segs)) e t
      else if is_marker endSuffix name then
        load_scan fis (segs @ [\<lparr>path = name, offset = the (ParseInt (take segmentFilenameLength name)),
               ebuf = [], epos = []\<rparr>]) s (if e = - 1 then int (length segs) else e) t
      else if is_marker truncateSuffix name then
        (if t \<noteq> - 1 then Inl ErrCorrupt
         else load_scan fis (segs @ [\<lparr>path = name, offset = the (ParseInt (take segmentFilenameLength name)),
               ebuf = [], epos = []\<rparr>]) s e (int (length segs)))
      else if length name = segmentFilenameLength \<and> ParseInt name \<noteq> None \<and> ParseInt name \<noteq> Some (- 1) then
        load_scan fis (segs @ [\<lparr>path = name, offset = the (ParseInt name),
               ebuf = [], epos = []\<rparr>]) s e t
      else load_scan fis segs s e t)"
  by (auto simp: is_marker_def Let_def startSuffix_def endSuffix_def truncateSuffix_def 
        segmentFilenameLength_def split: option.splits)


lemma load_scan_corrupt:
  "(t \<noteq> - 1 \<and> 1 \<le> count_markers truncateSuffix fis) \<or> 2 \<le> count_markers truncateSuffix fis
   \<Longrightarrow> load_scan fis segs s e t = Inl ErrCorrupt"
proof (induction fis arbitrary: segs s e t)
  case Nil
  then show ?case by (simp add: count_markers_def)
next
  case (Cons name fis)
  show ?case
  proof (cases "is_marker truncateSuffix name")
    case True
    note ex = is_marker_excl(3)[OF True]
    show ?thesis
    proof (cases "t = - 1")
      case True
      with Cons.prems \<open>is_marker truncateSuffix name\<close>
      have "1 \<le> count_markers truncateSuffix fis" by (simp add: count_markers_def)
      then show ?thesis
        using Cons.IH[of "int (length segs)"] True ex \<open>is_marker truncateSuffix name\<close>
        by (simp add: load_scan_step del: load_scan.simps)
    next
      case False
      with ex True show ?thesis by (simp add: load_scan_step del: load_scan.simps)
    qed
  next
    case False
    with Cons.prems
    have p: "(t \<noteq> - 1 \<and> 1 \<le> count_markers truncateSuffix fis) \<or> 2 \<le> count_markers truncateSuffix fis"
      by (simp add: count_markers_def)
    show ?thesis
      using False Cons.IH[OF p] by (simp add: load_scan_step del: load_scan.simps)
  qed
qed

lemma load_scan_ok:
  "\<not> ((t \<noteq> - 1 \<and> 1 \<le> count_markers truncateSuffix fis) \<or> 2 \<le> count_markers truncateSuffix fis)
   \<Longrightarrow> \<exists>segs' s' e' t'. load_scan fis segs s e t = Inr (segs', s', e', t')
        \<and> (s' \<noteq> - 1 \<longleftrightarrow> s \<noteq> - 1 \<or> 0 < count_markers startSuffix fis)
        \<and> (e' \<noteq> - 1 \<longleftrightarrow> e \<noteq> - 1 \<or> 0 < count_markers endSuffix fis)
        \<and> (t' \<noteq> - 1 \<longleftrightarrow> t \<noteq> - 1 \<or> 0 < count_markers truncateSuffix fis)
        \<and> (segs' = [] \<longrightarrow> segs = [] \<and> count_markers startSuffix fis = 0 
              \<and> count_markers endSuffix fis = 0 \<and> count_markers truncateSuffix fis = 0)"
proof (induction fis arbitrary: segs s e t)
  case Nil
  then show ?case by (simp add: count_markers_def)
next
  case (Cons name fis)
  consider (st) "is_marker startSuffix name" | (en) "is_marker endSuffix name"
    | (tr) "is_marker truncateSuffix name"
    | (no) "\<not> is_marker startSuffix name" "\<not> is_marker endSuffix name" "\<not> is_marker truncateSuffix name"
    by blast
  then show ?case
  proof cases
    case st
    note ex = is_marker_excl(1)[OF st]
    from Cons.prems ex
    have p: "\<not> ((t \<noteq> - 1 \<and> 1 \<le> count_markers truncateSuffix fis) \<or> 2 \<le> count_markers truncateSuffix fis)"
      by (simp add: count_markers_def)
    show ?thesis
      using Cons.IH[OF p, of "segs @ [\<lparr>path = name, offset = the (ParseInt (take segmentFilenameLength name)),
               ebuf = [], epos = []\<rparr>]" "int (length segs)" e] st ex
      by (auto simp add: load_scan_step count_markers_def simp del: load_scan.simps)
  next
    case en
    note ex = is_marker_excl(2)[OF en]
    from Cons.prems ex
    have p: "\<not> ((t \<noteq> - 1 \<and> 1 \<le> count_markers truncateSuffix fis) \<or> 2 \<le> count_markers truncateSuffix fis)"
      by (simp add: count_markers_def)
    show ?thesis
      using Cons.IH[OF p, of "segs @ [\<lparr>path = name, offset = the (ParseInt (take segmentFilenameLength name)),
               ebuf = [], epos = []\<rparr>]" s "if e = - 1 then int (length segs) else e"] en ex
      by (auto simp add: load_scan_step count_markers_def simp del: load_scan.simps)
  next
    case tr
    note ex = is_marker_excl(3)[OF tr]
    from Cons.prems tr
    have t: "t = - 1" and c: "count_markers truncateSuffix fis = 0"
      by (auto simp: count_markers_def not_le less_Suc_eq_le)
    then have p: "\<not> ((int (length segs) \<noteq> - 1 \<and> 1 \<le> count_markers truncateSuffix fis) \<or> 2 \<le> count_markers truncateSuffix fis)"
      by simp
    show ?thesis
      using Cons.IH[OF p, of "segs @ [\<lparr>path = name, offset = the (ParseInt (take segmentFilenameLength name)),
               ebuf = [], epos = []\<rparr>]" s e] tr ex t c
      by (auto simp add: load_scan_step count_markers_def simp del: load_scan.simps)
  next
    case no
    from Cons.prems no
    have p: "\<not> ((t \<noteq> - 1 \<and> 1 \<le> count_markers truncateSuffix fis) \<or> 2 \<le> count_markers truncateSuffix fis)"
      by (simp add: count_markers_def)
    show ?thesis
    proof (cases "length name = segmentFilenameLength \<and> ParseInt name \<noteq> None \<and> ParseInt name \<noteq> Some (- 1)")
      case True
      then show ?thesis
        using Cons.IH[OF p, of "segs @ [\<lparr>path = name, offset = the (ParseInt name),
               ebuf = [], epos = []\<rparr>]" s e] no
        by (auto simp add: load_scan_step count_markers_def simp del: load_scan.simps)
    next
      case False
      then show ?thesis
        using Cons.IH[OF p, of segs s e] no
        by (auto simp add: load_scan_step count_markers_def simp del: load_scan.simps)
    qed
  qed
qed

lemma Read_not_found:
  assumes "\<not> corrupt l" "\<not> closed l"
  shows "(fst (Read l off) = Inl ErrNotFound) = (off < firstOffset l \<or> lastOffset l < off)"
proof (cases "off < firstOffset l \<or> lastOffset l < off")
  case True
  with assms show ?thesis by (auto simp: Read_def)
next
  case False
  obtain r l1 where ls: "loadSegment l off = (r, l1)" by (cases "loadSegment l off")
  have "fst (Read l off) \<noteq> Inl ErrNotFound"
  proof (cases r)
    case (Inl e)
    with ls loadSegment_err[of l off e] have "e \<noteq> ErrNotFound" by simp
    with assms False ls Inl show ?thesis by (simp add: Read_def)
  next
    case (Inr si)
    with assms False ls show ?thesis
      by (simp add: Read_def Let_def split: prod.splits)
  qed
  with False show ?thesis by simp
qed

subsection \<open>The invariant: consequences and changes of residency\<close>

lemma segs_ok_len: "segs_ok d segs ess h m \<Longrightarrow> length ess = length segs"
  by (simp add: segs_ok_def)

lemma segs_ok_h: "segs_ok d segs ess h m \<Longrightarrow> h < length segs"
  by (simp add: segs_ok_def)

lemma segs_ok_stale: "segs_ok d segs ess h m \<Longrightarrow> i < h \<Longrightarrow> seg_stale d (segs ! i) \<and> ess ! i = []"
  by (simp add: segs_ok_def)

lemma segs_ok_live:
  "segs_ok d segs ess h m \<Longrightarrow> h \<le> i \<Longrightarrow> i + 1 < length segs \<Longrightarrow> seg_live d (segs ! i) (ess ! i)"
  by (simp add: segs_ok_def)

lemma segs_ok_tail:
  "segs_ok d segs ess h m \<Longrightarrow> tail_ok d (segs ! (length segs - 1)) (ess ! (length segs - 1)) m"
  by (simp add: segs_ok_def)

lemma segs_ok_size:
  "segs_ok d segs ess h m \<Longrightarrow> i < length segs \<Longrightarrow> e \<in> set (ess ! i) \<Longrightarrow> length e < 2 ^ 63"
  by (simp add: segs_ok_def)

lemma segs_ok_zero: "segs_ok d segs ess h m \<Longrightarrow> 0 \<le> offset (segs ! 0)"
  by (simp add: segs_ok_def)

lemma segs_ok_step:
  "segs_ok d segs ess h m \<Longrightarrow> i + 1 < length segs \<Longrightarrow>
   offset (segs ! i) + int (length (ess ! i)) \<le> offset (segs ! (i + 1))
   \<and> offset (segs ! i) < offset (segs ! (i + 1))"
  by (simp add: segs_ok_def)

lemma segs_ok_top:
  "segs_ok d segs ess h m \<Longrightarrow>
   offset (segs ! (length segs - 1)) + int (length (ess ! (length segs - 1))) < 2 ^ 63"
  by (simp add: segs_ok_def)

lemma segs_ok_first: "segs_ok d segs ess h m \<Longrightarrow> ess ! h = [] \<Longrightarrow> h = length segs - 1"
  by (simp add: segs_ok_def)

lemma segs_ok_dom: "segs_ok d segs ess h m \<Longrightarrow> dom (fs_lookup d) = set (drop h (map path segs))"
  by (simp add: segs_ok_def)

lemma segs_okI:
  assumes "length ess = length segs" "h < length segs"
    and "\<And>i. i < h \<Longrightarrow> seg_stale d (segs ! i) \<and> ess ! i = []"
    and "\<And>i. h \<le> i \<Longrightarrow> i + 1 < length segs \<Longrightarrow> seg_live d (segs ! i) (ess ! i)"
    and "tail_ok d (segs ! (length segs - 1)) (ess ! (length segs - 1)) m"
    and "\<And>i e. i < length segs \<Longrightarrow> e \<in> set (ess ! i) \<Longrightarrow> length e < 2 ^ 63"
    and "0 \<le> offset (segs ! 0)"
    and "\<And>i. i + 1 < length segs \<Longrightarrow>
            offset (segs ! i) + int (length (ess ! i)) \<le> offset (segs ! (i + 1))
            \<and> offset (segs ! i) < offset (segs ! (i + 1))"
    and "offset (segs ! (length segs - 1)) + int (length (ess ! (length segs - 1))) < 2 ^ 63"
    and "ess ! h = [] \<Longrightarrow> h = length segs - 1"
    and "dom (fs_lookup d) = set (drop h (map path segs))"
  shows "segs_ok d segs ess h m"
  unfolding segs_ok_def using assms by blast

lemma segs_ok_mono:
  assumes "segs_ok d segs ess h m"
  shows "a < b \<Longrightarrow> b < length segs \<Longrightarrow>
     offset (segs ! a) + int (length (ess ! a)) \<le> offset (segs ! b)
     \<and> offset (segs ! a) < offset (segs ! b)"
proof (induction b)
  case 0
  then show ?case by simp
next
  case (Suc b)
  have st: "offset (segs ! b) + int (length (ess ! b)) \<le> offset (segs ! Suc b)"
       "offset (segs ! b) < offset (segs ! Suc b)"
    using segs_ok_step[OF assms, of b] Suc.prems by simp_all
  show ?case
  proof (cases "a = b")
    case True
    with st show ?thesis by simp
  next
    case False
    with Suc.prems have "a < b" "b < length segs" by simp_all
    from Suc.IH[OF this] st show ?thesis by linarith
  qed
qed

lemma segs_ok_sorted:
  assumes "segs_ok d segs ess h m"
  shows "\<forall>a b. a \<le> b \<and> b < length segs \<longrightarrow> offset (segs ! a) \<le> offset (segs ! b)"
proof (intro allI impI)
  fix a b assume ab: "a \<le> b \<and> b < length segs"
  show "offset (segs ! a) \<le> offset (segs ! b)"
  proof (cases "a = b")
    case True then show ?thesis by simp
  next
    case False
    with ab have "a < b" "b < length segs" by simp_all
    from segs_ok_mono[OF assms this] show ?thesis by simp
  qed
qed

lemma segs_ok_range:
  assumes "segs_ok d segs ess h m" "i < length segs"
  shows "0 \<le> offset (segs ! i) \<and> offset (segs ! i) + int (length (ess ! i)) < 2 ^ 63"
proof -
  have z: "0 \<le> offset (segs ! 0)" using assms(1) by (simp add: segs_ok_def)
  have "offset (segs ! 0) \<le> offset (segs ! i)"
    using segs_ok_sorted[OF assms(1)] assms(2) by simp
  with z have lo: "0 \<le> offset (segs ! i)" by simp
  have t: "offset (segs ! (length segs - 1)) + int (length (ess ! (length segs - 1))) < 2 ^ 63"
    using assms(1) by (simp add: segs_ok_def)
  have hi: "offset (segs ! i) + int (length (ess ! i)) < 2 ^ 63"
  proof (cases "i = length segs - 1")
    case True with t show ?thesis by simp
  next
    case False
    with assms(2) have "i < length segs - 1" "length segs - 1 < length segs" by simp_all
    from segs_ok_mono[OF assms(1) this] t show ?thesis by linarith
  qed
  from lo hi show ?thesis by simp
qed

lemma segs_ok_update_mem:
  assumes ok: "segs_ok d segs ess h m"
    and j: "j + 1 < length segs"
    and p: "path s' = path (segs ! j)" and o: "offset s' = offset (segs ! j)"
    and st: "j < h \<longrightarrow> ebuf s' = [] \<and> epos s' = []"
    and lv: "h \<le> j \<longrightarrow> seg_resident s' (ess ! j) \<or> (ebuf s' = [] \<and> epos s' = [])"
  shows "segs_ok d (segs[j := s']) ess h m"
proof (rule segs_okI)
  have mp: "map path (segs[j := s']) = map path segs"
    using p j by (simp add: map_update list_update_same_conv)
  have off: "offset (segs[j := s'] ! i) = offset (segs ! i)" if "i < length segs" for i
    using that o by (cases "i = j") simp_all
  have tl: "segs[j := s'] ! (length segs - 1) = segs ! (length segs - 1)"
    using j by simp
  show "length ess = length (segs[j := s'])" using segs_ok_len[OF ok] by simp
  show "h < length (segs[j := s'])" using segs_ok_h[OF ok] by simp
  show "seg_stale d (segs[j := s'] ! i) \<and> ess ! i = []" if "i < h" for i
  proof (cases "i = j")
    case True
    with that st p o segs_ok_stale[OF ok that] j show ?thesis
      by (auto simp: seg_stale_def)
  next
    case False
    with segs_ok_stale[OF ok that] show ?thesis by simp
  qed
  show "seg_live d (segs[j := s'] ! i) (ess ! i)" if "h \<le> i" "i + 1 < length (segs[j := s'])" for i
  proof (cases "i = j")
    case True
    with that lv p o segs_ok_live[OF ok that(1), of ] j show ?thesis
      by (auto simp: seg_live_def)
  next
    case False
    with segs_ok_live[OF ok that(1)] that(2) show ?thesis by simp
  qed
  show "tail_ok d (segs[j := s'] ! (length (segs[j := s']) - 1))
          (ess ! (length (segs[j := s']) - 1)) m"
    using segs_ok_tail[OF ok] tl by simp
  show "length e < 2 ^ 63" if "i < length (segs[j := s'])" "e \<in> set (ess ! i)" for i e
    using segs_ok_size[OF ok] that by simp
  have n0: "0 < length segs" using j by (cases segs) simp_all
  show "0 \<le> offset (segs[j := s'] ! 0)" using segs_ok_zero[OF ok] off[OF n0] by simp
  show "offset (segs[j := s'] ! i) + int (length (ess ! i)) \<le> offset (segs[j := s'] ! (i + 1))
            \<and> offset (segs[j := s'] ! i) < offset (segs[j := s'] ! (i + 1))"
    if "i + 1 < length (segs[j := s'])" for i
  proof -
    have a: "i < length segs" and b: "i + 1 < length segs" using that by simp_all
    show ?thesis using segs_ok_step[OF ok b] off[OF a] off[OF b] by simp
  qed
  show "offset (segs[j := s'] ! (length (segs[j := s']) - 1))
          + int (length (ess ! (length (segs[j := s']) - 1))) < 2 ^ 63"
    using segs_ok_top[OF ok] tl by simp
  show "h = length (segs[j := s']) - 1" if "ess ! h = []"
    using segs_ok_first[OF ok that] by simp
  show "dom (fs_lookup d) = set (drop h (map path (segs[j := s'])))"
    using segs_ok_dom[OF ok] by (simp only: mp)
qed

lemma unchanged_refl [simp]: "unchanged l l"
  by (simp add: unchanged_def)

lemma unchanged_trans: "unchanged a b \<Longrightarrow> unchanged b c \<Longrightarrow> unchanged a c"
  by (simp add: unchanged_def)

lemma unchanged_length: "unchanged l l' \<Longrightarrow> length (segments l') = length (segments l)"
  by (metis length_map unchanged_def)

lemma unchanged_offset:
  "unchanged l l' \<Longrightarrow> i < length (segments l) \<Longrightarrow> offset (segments l' ! i) = offset (segments l ! i)"
proof -
  assume u: "unchanged l l'" and i: "i < length (segments l)"
  have "map offset (segments l') ! i = map offset (segments l) ! i"
    using u by (simp add: unchanged_def)
  then show ?thesis using i unchanged_length[OF u] by simp
qed

lemma ginv_mem_update:
  assumes g: "ginv l ess h m"
    and j: "j + 1 < length (segments l)"
    and p: "path s' = path (segments l ! j)" and o: "offset s' = offset (segments l ! j)"
    and st: "j < h \<longrightarrow> ebuf s' = [] \<and> epos s' = []"
    and lv: "h \<le> j \<longrightarrow> seg_resident s' (ess ! j) \<or> (ebuf s' = [] \<and> epos s' = [])"
    and c: "\<forall>k\<in>set c'. k + 1 < length (segments l)"
  shows "ginv (l\<lparr>segments := (segments l)[j := s'], scache := c'\<rparr>) ess h m
         \<and> unchanged l (l\<lparr>segments := (segments l)[j := s'], scache := c'\<rparr>)"
proof -
  have ok: "segs_ok (fs l) (segments l) ess h m" using g by (simp add: ginv_def)
  have ok': "segs_ok (fs l) ((segments l)[j := s']) ess h m"
    by (rule segs_ok_update_mem[OF ok j p o st lv])
  have h: "h < length (segments l)" by (rule segs_ok_h[OF ok])
  have oh: "offset ((segments l)[j := s'] ! h) = offset (segments l ! h)"
    using o h by (cases "h = j") simp_all
  have pt: "path ((segments l)[j := s'] ! (length (segments l) - 1))
             = path (segments l ! (length (segments l) - 1))"
    using j by simp
  have mo: "map offset ((segments l)[j := s']) = map offset (segments l)"
    using o j by (simp add: map_update list_update_same_conv)
  have mp: "map path ((segments l)[j := s']) = map path (segments l)"
    using p j by (simp add: map_update list_update_same_conv)
  show ?thesis
    using g ok' c oh pt mo mp by (simp add: ginv_def unchanged_def)
qed

lemma ginv_cache_update:
  assumes g: "ginv l ess h m" and c: "\<forall>k\<in>set c'. k + 1 < length (segments l)"
  shows "ginv (l\<lparr>scache := c'\<rparr>) ess h m \<and> unchanged l (l\<lparr>scache := c'\<rparr>)"
  using g c by (simp add: ginv_def unchanged_def)

lemma drop_buffers_fields [simp]:
  "path (drop_buffers s) = path s" "offset (drop_buffers s) = offset s"
  "ebuf (drop_buffers s) = []" "epos (drop_buffers s) = []"
  by (simp_all add: drop_buffers_def)

lemma pushCache_ginv:
  assumes g: "ginv l ess h m" and i: "i + 1 < length (segments l)"
  shows "ginv (pushCache l i) ess h m \<and> unchanged l (pushCache l i)
         \<and> segments (pushCache l i) ! i = segments l ! i"
proof -
  have c: "\<forall>k\<in>set (scache l). k + 1 < length (segments l)" using g by (simp add: ginv_def)
  show ?thesis
  proof (cases "i \<in> set (scache l)")
    case True
    have "\<forall>k\<in>set (i # remove1 i (scache l)). k + 1 < length (segments l)"
      using c i by (auto dest: notin_set_remove1)
    from ginv_cache_update[OF g this] True show ?thesis by (simp add: pushCache_def)
  next
    case False
    show ?thesis
    proof (cases "length (scache l) = lru_size l")
      case full: True
      have "0 < lru_size l" by (simp add: lru_size_def)
      with full have ne: "scache l \<noteq> []" by auto
      let ?ev = "last (scache l)"
      have ev: "?ev \<in> set (scache l)" using ne by simp
      then have evn: "?ev + 1 < length (segments l)" using c by blast
      have evi: "?ev \<noteq> i" using ev False by auto
      have c': "\<forall>k\<in>set (i # butlast (scache l)). k + 1 < length (segments l)"
        using c i by (auto dest: in_set_butlastD)
      have r: "pushCache l i = l\<lparr>segments := (segments l)[?ev := drop_buffers (segments l ! ?ev)],
                                 scache := i # butlast (scache l)\<rparr>"
        using False full by (simp add: pushCache_def Let_def)
      have "ginv (l\<lparr>segments := (segments l)[?ev := drop_buffers (segments l ! ?ev)],
                      scache := i # butlast (scache l)\<rparr>) ess h m
            \<and> unchanged l (l\<lparr>segments := (segments l)[?ev := drop_buffers (segments l ! ?ev)],
                      scache := i # butlast (scache l)\<rparr>)"
        by (rule ginv_mem_update[OF g evn _ _ _ _ c']) simp_all
      then show ?thesis using evi unfolding r by simp
    next
      case nf: False
      have "\<forall>k\<in>set (i # scache l). k + 1 < length (segments l)" using c i by simp
      from ginv_cache_update[OF g this] False nf show ?thesis by (simp add: pushCache_def)
    qed
  qed
qed

subsection \<open>Loading a segment\<close>

lemma wrap64_range: "0 \<le> x \<Longrightarrow> x < 2 ^ 63 \<Longrightarrow> wrap64 x = x"
  by (simp add: wrap64_id)

lemma size_bound_64: "(n::nat) < 2 ^ 63 \<Longrightarrow> n < 2 ^ 64"
  by simp

lemma loadSegmentEntries_live:
  assumes f: "fs_lookup (fs l) (path (segments l ! i)) = Some (frames es)"
    and sz: "\<forall>e\<in>set es. length e < 2 ^ 63"
  shows "loadSegmentEntries l i =
     (None, l\<lparr>segments := (segments l)[i := (segments l ! i)\<lparr>ebuf := frames es, epos := positions 0 es\<rparr>]\<rparr>)"
proof -
  have "\<forall>e\<in>set es. length e < 2 ^ 64" using sz size_bound_64 by blast
  then have "load_entries 0 (frames es) = Inr (positions 0 es)" by (rule load_entries_frames)
  with f show ?thesis by (simp add: loadSegmentEntries_def fs_ReadFile_def)
qed

lemma seg_live_file: "seg_live d s es \<Longrightarrow> fs_lookup d (path s) = Some (frames es)"
  by (auto simp: seg_live_def)

lemma seg_live_path: "seg_live d s es \<Longrightarrow> path s = segmentName (offset s)"
  by (auto simp: seg_live_def)

lemma seg_live_mem: "seg_live d s es \<Longrightarrow> seg_resident s es \<or> (ebuf s = [] \<and> epos s = [])"
  by (auto simp: seg_live_def)

lemma tail_ok_file: "tail_ok d s es m \<Longrightarrow> fs_lookup d (path s) = Some (take m (frames es))"
  by (auto simp: tail_ok_def)

lemma tail_ok_path: "tail_ok d s es m \<Longrightarrow> path s = segmentName (offset s)"
  by (auto simp: tail_ok_def)

lemma tail_ok_mem: "tail_ok d s es m \<Longrightarrow> seg_resident s es"
  by (auto simp: tail_ok_def)

lemma tail_ok_mark: "tail_ok d s es m \<Longrightarrow> m \<le> length (frames es)"
  by (auto simp: tail_ok_def)

lemma seg_liveI:
  "path s = segmentName (offset s) \<Longrightarrow> fs_lookup d (path s) = Some (frames es) \<Longrightarrow>
   seg_resident s es \<or> (ebuf s = [] \<and> epos s = []) \<Longrightarrow> seg_live d s es"
  by (auto simp: seg_live_def)

lemma tail_okI:
  "path s = segmentName (offset s) \<Longrightarrow> m \<le> length (frames es) \<Longrightarrow>
   fs_lookup d (path s) = Some (take m (frames es)) \<Longrightarrow> seg_resident s es \<Longrightarrow> tail_ok d s es m"
  by (auto simp: tail_ok_def)

lemma segs_ok_le:
  "segs_ok d segs ess h m \<Longrightarrow> a \<le> b \<Longrightarrow> b < length segs \<Longrightarrow>
   offset (segs ! a) \<le> offset (segs ! b)"
  using segs_ok_sorted by blast

text \<open>The segment that holds an offset, by the order of the base offsets.\<close>

lemma loadSegment_ginv:
  assumes g: "ginv l ess h (length (frames (ess ! (length (segments l) - 1))))"
    and i: "i < length (segments l)" "h \<le> i"
    and lo: "offset (segments l ! i) \<le> index"
    and nxt: "i + 1 < length (segments l) \<longrightarrow> index < offset (segments l ! (i + 1))"
  shows "\<exists>l'. loadSegment l index = (Inr i, l')
           \<and> ginv l' ess h (length (frames (ess ! (length (segments l) - 1))))
           \<and> unchanged l l'
           \<and> (seg_resident (segments l' ! i) (ess ! i)
               \<or> (ess ! i = [] \<and> epos (segments l' ! i) = []))"
proof -
  let ?n = "length (segments l)"
  let ?m = "length (frames (ess ! (?n - 1)))"
  have ok: "segs_ok (fs l) (segments l) ess h ?m" using g by (simp add: ginv_def)
  have ne: "segments l \<noteq> []" using i by auto
  have tail: "tail_ok (fs l) (segments l ! (?n - 1)) (ess ! (?n - 1)) ?m" by (rule segs_ok_tail[OF ok])
  show ?thesis
  proof (cases "index \<ge> offset (segments l ! (?n - 1))")
    case True
    have "i = ?n - 1"
    proof (rule ccontr)
      assume "i \<noteq> ?n - 1"
      with i have a: "i + 1 < ?n" by simp
      with nxt have b: "index < offset (segments l ! (i + 1))" by simp
      have "offset (segments l ! (i + 1)) \<le> offset (segments l ! (?n - 1))"
        using a by (intro segs_ok_le[OF ok]) simp_all
      with b True show False by simp
    qed
    moreover have "seg_resident (segments l ! (?n - 1)) (ess ! (?n - 1))"
      by (rule tail_ok_mem[OF tail])
    ultimately show ?thesis using True ne g by (simp add: loadSegment_def)
  next
    case False
    have il: "i + 1 < ?n"
    proof (rule ccontr)
      assume "\<not> i + 1 < ?n"
      with i have "i = ?n - 1" by simp
      with lo False show False by simp
    qed
    have live: "seg_live (fs l) (segments l ! i) (ess ! i)" by (rule segs_ok_live[OF ok i(2) il])
    show ?thesis
    proof (cases "cache_lookup l index")
      case (Some k)
      then obtain ks where c: "scache l = k # ks"
        and ck: "offset (segments l ! k) \<le> index"
           "index < wrap64 (offset (segments l ! k) + int (length (epos (segments l ! k))))"
        by (auto simp: cache_lookup_def Let_def split: list.splits if_splits)
      have kn: "k + 1 < ?n" using g c by (simp add: ginv_def)
      have hk: "h \<le> k"
      proof (rule ccontr)
        assume "\<not> h \<le> k"
        then have "seg_stale (fs l) (segments l ! k)" using segs_ok_stale[OF ok] by simp
        then have "epos (segments l ! k) = []" "offset (segments l ! k) = 0"
          by (simp_all add: seg_stale_def)
        with ck show False by (simp add: wrap64_id)
      qed
      have lk: "seg_live (fs l) (segments l ! k) (ess ! k)" by (rule segs_ok_live[OF ok hk kn])
      have rk: "0 \<le> offset (segments l ! k)"
         "offset (segments l ! k) + int (length (ess ! k)) < 2 ^ 63"
        using segs_ok_range[OF ok, of k] kn by simp_all
      have res: "seg_resident (segments l ! k) (ess ! k)"
      proof (rule ccontr)
        assume "\<not> seg_resident (segments l ! k) (ess ! k)"
        with seg_live_mem[OF lk] have "epos (segments l ! k) = []" by auto
        with ck rk show False by (simp add: wrap64_id)
      qed
      then have len: "length (epos (segments l ! k)) = length (ess ! k)"
        by (simp add: seg_resident_def)
      have up: "index < offset (segments l ! k) + int (length (ess ! k))"
        using ck(2) rk by (simp add: len wrap64_id)
      have "k = i"
      proof (rule ccontr)
        assume "k \<noteq> i"
        then consider "k < i" | "i < k" by linarith
        then show False
        proof cases
          case 1
          from segs_ok_mono[OF ok 1 i(1)] up lo show False by simp
        next
          case 2
          then have "i + 1 \<le> k" by simp
          then have "offset (segments l ! (i + 1)) \<le> offset (segments l ! k)"
            using kn by (intro segs_ok_le[OF ok]) simp_all
          with nxt il ck(1) show False by simp
        qed
      qed
      with res Some False ne g show ?thesis by (simp add: loadSegment_def)
    next
      case None
      have fi: "findSegment l index = int i"
        using findSegment_unique[OF segs_ok_sorted[OF ok] i(1) lo nxt] .
      let ?r = "if length (epos (segments l ! i)) = 0 then loadSegmentEntries l i else (None, l)"
      have ls: "loadSegment l index = (case ?r of (Some e, l1) \<Rightarrow> (Inl e, l1)
                    | (None, l1) \<Rightarrow> (Inr i, pushCache l1 i))"
        using None False ne i fi
        by (simp add: loadSegment_def Let_def split: prod.splits option.splits)
      have sz: "\<forall>e\<in>set (ess ! i). length e < 2 ^ 63"
        using segs_ok_size[OF ok i(1)] by blast
      let ?s = "(segments l ! i)\<lparr>ebuf := frames (ess ! i), epos := positions 0 (ess ! i)\<rparr>"
      let ?l1 = "l\<lparr>segments := (segments l)[i := ?s]\<rparr>"
      show ?thesis
      proof (cases "length (epos (segments l ! i)) = 0")
        case True
        have fl: "fs_lookup (fs l) (path (segments l ! i)) = Some (frames (ess ! i))"
          by (rule seg_live_file[OF live])
        have r: "?r = (None, ?l1)"
          using True loadSegmentEntries_live[OF fl sz] by simp
        have "ginv (l\<lparr>segments := (segments l)[i := ?s], scache := scache l\<rparr>) ess h ?m
              \<and> unchanged l (l\<lparr>segments := (segments l)[i := ?s], scache := scache l\<rparr>)"
        proof (rule ginv_mem_update[OF g il])
          show "i < h \<longrightarrow> ebuf ?s = [] \<and> epos ?s = []" using i(2) by simp
          show "h \<le> i \<longrightarrow> seg_resident ?s (ess ! i) \<or> (ebuf ?s = [] \<and> epos ?s = [])"
            by (simp add: seg_resident_def)
          show "\<forall>k\<in>set (scache l). k + 1 < length (segments l)"
            using g by (simp add: ginv_def)
        qed simp_all
        then have g1: "ginv ?l1 ess h ?m" and u1: "unchanged l ?l1" by simp_all
        have n1: "length (segments ?l1) = ?n" by simp
        have il1: "i + 1 < length (segments ?l1)" using il by simp
        from pushCache_ginv[OF g1 il1]
        have g2: "ginv (pushCache ?l1 i) ess h ?m" and u2: "unchanged ?l1 (pushCache ?l1 i)"
          and s2: "segments (pushCache ?l1 i) ! i = segments ?l1 ! i" by simp_all
        have "seg_resident (segments (pushCache ?l1 i) ! i) (ess ! i)"
          using s2 i by (simp add: seg_resident_def)
        then show ?thesis
          using ls r g2 unchanged_trans[OF u1 u2] by simp
      next
        case nonempty: False
        then have res: "seg_resident (segments l ! i) (ess ! i)"
          using seg_live_mem[OF live] by auto
        from pushCache_ginv[OF g il]
        have g2: "ginv (pushCache l i) ess h ?m" and u2: "unchanged l (pushCache l i)"
          and s2: "segments (pushCache l i) ! i = segments l ! i" by simp_all
        show ?thesis using ls nonempty g2 u2 s2 res by simp
      qed
    qed
  qed
qed

subsection \<open>Reading under the invariant\<close>

lemma seg_index_exists:
  assumes ok: "segs_ok d segs ess h m" and lo: "offset (segs ! h) \<le> off"
  shows "\<exists>i. h \<le> i \<and> i < length segs \<and> offset (segs ! i) \<le> off
           \<and> (i + 1 < length segs \<longrightarrow> off < offset (segs ! (i + 1)))"
proof -
  let ?r = "findSegment_go segs off 0 (length segs)"
  have spec: "?r \<le> length segs" "\<forall>k<?r. offset (segs ! k) \<le> off"
    "\<forall>k. ?r \<le> k \<and> k < length segs \<longrightarrow> off < offset (segs ! k)"
    using findSegment_go_spec[OF segs_ok_sorted[OF ok], of 0 "length segs" off] by auto
  have h: "h < length segs" by (rule segs_ok_h[OF ok])
  have hr: "h < ?r"
  proof (rule ccontr)
    assume "\<not> h < ?r"
    then have "off < offset (segs ! h)" using spec(3) h by auto
    with lo show False by simp
  qed
  have "h \<le> ?r - 1" "?r - 1 < length segs" "offset (segs ! (?r - 1)) \<le> off"
    "(?r - 1) + 1 < length segs \<longrightarrow> off < offset (segs ! ((?r - 1) + 1))"
    using hr spec by auto
  then show ?thesis by blast
qed

lemma covers_iff:
  assumes ok: "segs_ok d segs ess h m"
    and i: "i < length segs" "offset (segs ! i) \<le> off"
    and nxt: "i + 1 < length segs \<longrightarrow> off < offset (segs ! (i + 1))"
  shows "covers (map offset segs) ess off b
         \<longleftrightarrow> (off < offset (segs ! i) + int (length (ess ! i))
              \<and> ess ! i ! nat (off - offset (segs ! i)) = b)"
proof
  assume "covers (map offset segs) ess off b"
  then obtain k where k: "k < length segs" "offset (segs ! k) \<le> off"
    "off < offset (segs ! k) + int (length (ess ! k))" "ess ! k ! nat (off - offset (segs ! k)) = b"
    by (auto simp: covers_def)
  have "k = i"
  proof (rule ccontr)
    assume "k \<noteq> i"
    then consider "k < i" | "i < k" by linarith
    then show False
    proof cases
      case 1
      from segs_ok_mono[OF ok 1 i(1)] k(3) i(2) show False by simp
    next
      case 2
      then have a: "i + 1 \<le> k" by simp
      have "offset (segs ! (i + 1)) \<le> offset (segs ! k)" by (rule segs_ok_le[OF ok a k(1)])
      moreover have "i + 1 < length segs" using a k(1) by simp
      ultimately show False using nxt k(2) by simp
    qed
  qed
  with k show "off < offset (segs ! i) + int (length (ess ! i))
     \<and> ess ! i ! nat (off - offset (segs ! i)) = b" by simp
next
  assume "off < offset (segs ! i) + int (length (ess ! i))
     \<and> ess ! i ! nat (off - offset (segs ! i)) = b"
  with i show "covers (map offset segs) ess off b" by (auto simp: covers_def)
qed

lemma read_resident:
  assumes res: "seg_resident s es" and k: "k < length es" and sz: "length (es ! k) < 2 ^ 63"
  shows "(let ep = epos s ! k
          in \<not> (bend ep < pos ep \<or> length (ebuf s) < bend ep)
             \<and> take (bend ep - pos ep) (drop (pos ep) (ebuf s)) = frame (es ! k))"
proof -
  have ep: "epos s ! k = \<lparr>pos = length (frames (take k es)),
                            bend = length (frames (take k es)) + length (frame (es ! k))\<rparr>"
    using res positions_nth[OF k, of 0] by (simp add: seg_resident_def)
  have eb: "ebuf s = frames es" using res by (simp add: seg_resident_def)
  have "frames es = frames (take k es) @ frames (drop k es)" by (rule frames_take_drop)
  also have "drop k es = es ! k # drop (Suc k) es" using k by (simp add: Cons_nth_drop_Suc)
  finally have fe: "frames es = frames (take k es) @ frame (es ! k) @ frames (drop (Suc k) es)"
    by (simp add: frames_Cons)
  then have len: "length (frames (take k es)) + length (frame (es ! k)) \<le> length (frames es)"
    by simp
  have sl: "take (length (frame (es ! k))) (drop (length (frames (take k es))) (frames es)) = frame (es ! k)"
    by (rule frames_slice[OF k])
  show ?thesis using len sl by (simp add: ep eb Let_def)
qed


lemma linv_ginv: "linv l ess h \<Longrightarrow> ginv l ess h (length (frames (ess ! (length (segments l) - 1))))"
  by (simp add: linv_def)

lemma linv_segs_ok:
  "linv l ess h \<Longrightarrow> segs_ok (fs l) (segments l) ess h (length (frames (ess ! (length (segments l) - 1))))"
  by (simp add: linv_def ginv_def)

lemma linv_unchanged:
  assumes "linv l ess h" "unchanged l l'"
    "ginv l' ess h (length (frames (ess ! (length (segments l) - 1))))"
  shows "linv l' ess h"
proof -
  have n: "length (segments l') = length (segments l)" by (rule unchanged_length[OF assms(2)])
  have ne: "length (segments l) - 1 < length (segments l)"
    using segs_ok_h[OF linv_segs_ok[OF assms(1)]] by linarith
  have o: "offset (segments l' ! (length (segments l) - 1)) = offset (segments l ! (length (segments l) - 1))"
    by (rule unchanged_offset[OF assms(2) ne])
  have la: "lastOffset l' = lastOffset l" using assms(2) by (simp add: unchanged_def)
  have oh: "offset (segments l' ! h) = offset (segments l ! h)"
    by (rule unchanged_offset[OF assms(2) segs_ok_h[OF linv_segs_ok[OF assms(1)]]])
  show ?thesis using assms(1,3) o la oh by (simp add: linv_def n)
qed

lemma tight_unchanged: "tight l ess \<Longrightarrow> unchanged l l' \<Longrightarrow> segments l \<noteq> [] \<Longrightarrow> tight l' ess"
proof -
  assume t: "tight l ess" and u: "unchanged l l'" and ne: "segments l \<noteq> []"
  have n: "length (segments l') = length (segments l)" by (rule unchanged_length[OF u])
  have "length (segments l) - 1 < length (segments l)" using ne by simp
  from unchanged_offset[OF u this] t u show ?thesis
    by (simp add: tight_def n unchanged_def)
qed

lemma covers_in_range:
  assumes li: "linv l ess h" and c: "covers (map offset (segments l)) ess off b"
  shows "firstOffset l \<le> off \<and> off \<le> lastOffset l"
proof -
  let ?n = "length (segments l)"
  note ok = linv_segs_ok[OF li]
  obtain k where k: "k < ?n" "offset (segments l ! k) \<le> off"
    "off < offset (segments l ! k) + int (length (ess ! k))"
    using c by (auto simp: covers_def)
  have hk: "h \<le> k"
  proof (rule ccontr)
    assume "\<not> h \<le> k"
    then have "ess ! k = []" using segs_ok_stale[OF ok] by simp
    with k show False by simp
  qed
  have "offset (segments l ! h) \<le> offset (segments l ! k)" by (rule segs_ok_le[OF ok hk k(1)])
  moreover have "firstOffset l = offset (segments l ! h)" using li by (simp add: linv_def ginv_def)
  ultimately have lo: "firstOffset l \<le> off" using k(2) by simp
  have t: "offset (segments l ! (?n - 1)) + int (length (ess ! (?n - 1))) \<le> lastOffset l + 1"
    using li by (simp add: linv_def)
  have "off < offset (segments l ! (?n - 1)) + int (length (ess ! (?n - 1)))"
  proof (cases "k = ?n - 1")
    case True with k(3) show ?thesis by simp
  next
    case False
    with k(1) have "k < ?n - 1" "?n - 1 < ?n" by simp_all
    from segs_ok_mono[OF ok this] k(3) show ?thesis by linarith
  qed
  with t lo show ?thesis by simp
qed

lemma Read_linv:
  assumes li: "linv l ess h"
  shows "unchanged l (snd (Read l off)) \<and> linv (snd (Read l off)) ess h
     \<and> (\<forall>b. covers (map offset (segments l)) ess off b \<longrightarrow> fst (Read l off) = Inr b)
     \<and> (firstOffset l \<le> off \<and> off \<le> lastOffset l
          \<and> (\<forall>b. \<not> covers (map offset (segments l)) ess off b) \<longrightarrow> fst (Read l off) = Inl Panic)"
proof (cases "off < firstOffset l \<or> lastOffset l < off")
  case True
  then have r: "Read l off = (Inl ErrNotFound, l)"
    using li by (auto simp: Read_def linv_def ginv_def)
  have "\<forall>b. \<not> covers (map offset (segments l)) ess off b"
    using covers_in_range[OF li] True by force
  with True li show ?thesis by (auto simp: r)
next
  case False
  let ?n = "length (segments l)"
  let ?m = "length (frames (ess ! (?n - 1)))"
  note ok = linv_segs_ok[OF li]
  note g = linv_ginv[OF li]
  have fo: "firstOffset l = offset (segments l ! h)" using li by (simp add: linv_def ginv_def)
  from False fo have "offset (segments l ! h) \<le> off" by simp
  from seg_index_exists[OF ok this] obtain i where
    i: "h \<le> i" "i < ?n" "offset (segments l ! i) \<le> off"
       "i + 1 < ?n \<longrightarrow> off < offset (segments l ! (i + 1))" by blast
  from loadSegment_ginv[OF g i(2) i(1) i(3) i(4)] obtain l' where
    ls: "loadSegment l off = (Inr i, l')" and g': "ginv l' ess h ?m" and u: "unchanged l l'"
    and mem: "seg_resident (segments l' ! i) (ess ! i) \<or> (ess ! i = [] \<and> epos (segments l' ! i) = [])"
    by blast
  have li': "linv l' ess h" by (rule linv_unchanged[OF li u g'])
  let ?s = "segments l' ! i"
  have os: "offset ?s = offset (segments l ! i)" by (rule unchanged_offset[OF u i(2)])
  have rng: "0 \<le> offset (segments l ! i)" "offset (segments l ! i) + int (length (ess ! i)) < 2 ^ 63"
    using segs_ok_range[OF ok i(2)] by simp_all
  have offhi: "off < 2 ^ 63" using False li by (simp add: linv_def)
  let ?k = "off - offset (segments l ! i)"
  have wk: "wrap64 (off - offset ?s) = ?k" using rng i(3) offhi by (simp add: os wrap64_id)
  have nc: "\<not> corrupt l" "\<not> closed l" using li by (simp_all add: linv_def ginv_def)
  note cov = covers_iff[OF ok i(2) i(3) i(4)]
  show ?thesis
  proof (cases "?k < int (length (ess ! i))")
    case inb: True
    then have ne: "ess ! i \<noteq> []" using i(3) by auto
    with mem have res: "seg_resident ?s (ess ! i)" by simp
    have kn: "nat ?k < length (ess ! i)" using inb i(3) by simp
    have szk: "length (ess ! i ! nat ?k) < 2 ^ 63"
      using segs_ok_size[OF ok i(2)] kn by simp
    then have szk64: "length (ess ! i ! nat ?k) < 2 ^ 64" by (rule size_bound_64)
    have le: "length (epos ?s) = length (ess ! i)" using res by (simp add: seg_resident_def)
    note rr = read_resident[OF res kn szk, unfolded Let_def]
    note df = decode_frame[OF szk64]
    have r: "Read l off = (Inr (ess ! i ! nat ?k), l')"
      using nc False ls wk inb i(3) rr df le
      by (simp add: Read_def Let_def split: prod.splits)
    show ?thesis using r u li' cov inb by simp
  next
    case oob: False
    have le: "int (length (epos ?s)) \<le> ?k"
      using mem oob i(3) by (auto simp: seg_resident_def)
    have r: "Read l off = (Inl Panic, l')"
      using nc False ls wk le by (simp add: Read_def Let_def)
    show ?thesis using r u li' cov oob by simp
  qed
qed

subsection \<open>Opening an empty directory, Sync and ClearCache under the invariant\<close>

lemma createInitialSegment_linv:
  assumes "segments l = []" "scache l = []" "\<not> closed l" "\<not> corrupt l" "0 < SegmentSize (opts l)"
    and d: "dom (fs_lookup (fs l)) \<subseteq> {segmentName 0}"
  shows "\<exists>l'. createInitialSegment l 0 = (None, l') \<and> linv l' [[]] 0 \<and> tight l' [[]]
           \<and> firstOffset l' = 0 \<and> lastOffset l' = - 1 \<and> opts l' = opts l
           \<and> map offset (segments l') = [0]"
proof -
  let ?s = "\<lparr>path = segmentName 0, offset = 0, ebuf = [], epos = []\<rparr>"
  let ?l' = "l\<lparr>segments := [?s], firstOffset := 0, lastOffset := - 1,
               sfile := Some (segmentName 0), fs := fs_store (fs l) (segmentName 0) []\<rparr>"
  have r: "createInitialSegment l 0 = (None, ?l')"
    using assms(1) by (simp add: createInitialSegment_def newFile_def Let_def wrap64_id)
  have dm: "dom (fs_lookup (fs_store (fs l) (segmentName 0) [])) = {segmentName 0}"
    using d by auto
  have ok: "segs_ok (fs_store (fs l) (segmentName 0) []) [?s] [[]] 0 0"
    using d by (intro segs_okI) (auto simp: tail_ok_def seg_resident_def)
  have "linv ?l' [[]] 0"
    using assms(2-5) ok by (simp add: linv_def ginv_def)
  moreover have "tight ?l' [[]]" by (simp add: tight_def)
  ultimately show ?thesis using r by simp
qed

lemma open_log_empty_linv:
  "\<exists>l. open_log [] optp = Inr l \<and> linv l [[]] 0 \<and> tight l [[]]
        \<and> firstOffset l = 0 \<and> lastOffset l = - 1"
proof -
  obtain o' where o: "0 < SegmentSize o'" and
    r: "open_log [] optp =
     Inr \<lparr>opts = o', closed = False, corrupt = False,
          segments = [\<lparr>path = segmentName 0, offset = 0, ebuf = [], epos = []\<rparr>],
          firstOffset = 0, lastOffset = - 1, sfile = Some (segmentName 0), scache = [],
          fs = [(segmentName 0, [])]\<rparr>"
    using open_log_empty[of optp] by blast
  let ?s = "\<lparr>path = segmentName 0, offset = 0, ebuf = [], epos = []\<rparr>"
  have fl: "fs_lookup [(segmentName 0, [])] (segmentName 0) = Some []"
    by (simp add: fs_lookup_def)
  have dm: "dom (fs_lookup [(segmentName 0, [])]) = {segmentName 0}"
    by (auto simp: fs_lookup_def dom_def)
  have ok: "segs_ok [(segmentName 0, [])] [?s] [[]] 0 0"
    by (rule segs_okI) (simp_all add: tail_ok_def seg_resident_def dm fl)
  show ?thesis using o ok by (simp add: r linv_def ginv_def tight_def)
qed

lemma Sync_linv:
  "linv l ess h \<Longrightarrow> Sync l = (None, l)"
  by (simp add: Sync_def syncNoMutex_def doFSync_def file_Sync_def linv_def ginv_def)

lemma fold_drop_length [simp]:
  "length (fold (\<lambda>i segs. segs[i := drop_buffers (segs ! i)]) ks segs) = length segs"
  by (induction ks arbitrary: segs) simp_all

lemma clear_fold_ginv:
  "ginv l ess h m \<Longrightarrow> \<forall>k\<in>set ks. k + 1 < length (segments l) \<Longrightarrow>
   ginv (l\<lparr>segments := fold (\<lambda>i segs. segs[i := drop_buffers (segs ! i)]) ks (segments l),
           scache := []\<rparr>) ess h m
   \<and> unchanged l (l\<lparr>segments := fold (\<lambda>i segs. segs[i := drop_buffers (segs ! i)]) ks (segments l),
           scache := []\<rparr>)"
proof (induction ks arbitrary: l)
  case Nil
  then show ?case using ginv_cache_update[of l ess h m "[]"] by simp
next
  case (Cons k ks)
  let ?l1 = "l\<lparr>segments := (segments l)[k := drop_buffers (segments l ! k)], scache := []\<rparr>"
  have k: "k + 1 < length (segments l)" using Cons.prems by simp
  have "ginv ?l1 ess h m \<and> unchanged l ?l1"
    by (rule ginv_mem_update[OF Cons.prems(1) k]) simp_all
  then have g1: "ginv ?l1 ess h m" and u1: "unchanged l ?l1" by simp_all
  have ks: "\<forall>k\<in>set ks. k + 1 < length (segments ?l1)" using Cons.prems by simp
  from Cons.IH[OF g1 ks] u1 show ?case
    by (auto intro: unchanged_trans simp: unchanged_def)
qed

lemma clearCache_ginv:
  assumes g: "ginv l ess h m"
  shows "ginv (clearCache l) ess h m \<and> unchanged l (clearCache l) \<and> scache (clearCache l) = []"
proof -
  have c: "\<forall>k\<in>set (scache l). k + 1 < length (segments l)" using g by (simp add: ginv_def)
  from clear_fold_ginv[OF g c] show ?thesis by (simp add: clearCache_def)
qed

lemma ClearCache_linv:
  assumes li: "linv l ess h"
  shows "\<exists>l'. ClearCache l = (None, l') \<and> linv l' ess h \<and> unchanged l l'"
proof -
  have nc: "\<not> corrupt l" "\<not> closed l" using li by (simp_all add: linv_def ginv_def)
  from clearCache_ginv[OF linv_ginv[OF li]] linv_unchanged[OF li, of "clearCache l"] nc
  show ?thesis by (simp add: ClearCache_def)
qed

subsection \<open>Changes of the tail segment\<close>

lemma seg_stale_path: "seg_stale d s \<Longrightarrow> path s = segmentName (offset s)"
  by (auto simp: seg_stale_def)

lemma segs_ok_path:
  assumes ok: "segs_ok d segs ess h m" and i: "i < length segs"
  shows "path (segs ! i) = segmentName (offset (segs ! i))"
proof -
  consider "i < h" | "h \<le> i" "i + 1 < length segs" | "i = length segs - 1"
    using i by linarith
  then show ?thesis
  proof cases
    case 1
    then show ?thesis using segs_ok_stale[OF ok] seg_stale_path by blast
  next
    case 2
    then show ?thesis using segs_ok_live[OF ok] seg_live_path by blast
  next
    case 3
    then show ?thesis using tail_ok_path[OF segs_ok_tail[OF ok]] by simp
  qed
qed

lemma segs_ok_path_inj:
  assumes ok: "segs_ok d segs ess h m" and i: "i < length segs" and j: "j < length segs"
    and e: "path (segs ! i) = path (segs ! j)"
  shows "i = j"
proof -
  have "segmentName (offset (segs ! i)) = segmentName (offset (segs ! j))"
    using e segs_ok_path[OF ok i] segs_ok_path[OF ok j] by simp
  moreover have "0 \<le> offset (segs ! i)" "offset (segs ! i) < 2 ^ 63"
    using segs_ok_range[OF ok i] by simp_all
  moreover have "0 \<le> offset (segs ! j)" "offset (segs ! j) < 2 ^ 63"
    using segs_ok_range[OF ok j] by simp_all
  ultimately have oe: "offset (segs ! i) = offset (segs ! j)" by (rule segmentName_inj[rotated -1])
  show ?thesis
  proof (rule ccontr)
    assume "i \<noteq> j"
    then consider "i < j" | "j < i" by linarith
    then show False
    proof cases
      case 1 from segs_ok_mono[OF ok 1 j] oe show False by simp
    next
      case 2 from segs_ok_mono[OF ok 2 i] oe show False by simp
    qed
  qed
qed

lemma segs_ok_update_tail:
  assumes ok: "segs_ok d segs ess h m"
    and p: "path s' = path (segs ! (length segs - 1))"
    and o: "offset s' = offset (segs ! (length segs - 1))"
    and t: "tail_ok d' s' es' m'"
    and same: "\<And>q. q \<noteq> path (segs ! (length segs - 1)) \<Longrightarrow> fs_lookup d' q = fs_lookup d q"
    and sz: "\<And>e. e \<in> set es' \<Longrightarrow> length e < 2 ^ 63"
    and top: "offset (segs ! (length segs - 1)) + int (length es') < 2 ^ 63"
  shows "segs_ok d' (segs[length segs - 1 := s']) (ess[length segs - 1 := es']) h m'"
proof (rule segs_okI)
  let ?n = "length segs"
  let ?t = "?n - 1"
  have h: "h < ?n" by (rule segs_ok_h[OF ok])
  then have tn: "?t < ?n" by linarith
  have len: "length ess = ?n" by (rule segs_ok_len[OF ok])
  have nth: "segs[?t := s'] ! i = segs ! i" "ess[?t := es'] ! i = ess ! i" if "i < ?t" for i
    using that by simp_all
  have off: "offset (segs[?t := s'] ! i) = offset (segs ! i)" if "i < ?n" for i
    using that o by (cases "i = ?t") simp_all
  have pne: "path (segs ! i) \<noteq> path (segs ! ?t)" if "i < ?t" for i
  proof
    assume e: "path (segs ! i) = path (segs ! ?t)"
    have "i < ?n" using that by linarith
    from segs_ok_path_inj[OF ok this tn e] that show False by simp
  qed
  have mp: "map path (segs[?t := s']) = map path segs"
    using p tn by (simp add: map_update list_update_same_conv)
  show "length (ess[?t := es']) = length (segs[?t := s'])" using len by simp
  show "h < length (segs[?t := s'])" using h by simp
  show "seg_stale d' (segs[?t := s'] ! i) \<and> ess[?t := es'] ! i = []" if "i < h" for i
  proof -
    have it: "i < ?t" using that h by linarith
    have "seg_stale d (segs ! i)" "ess ! i = []" using segs_ok_stale[OF ok that] by simp_all
    then show ?thesis unfolding nth[OF it] using same[OF pne[OF it]] by (auto simp: seg_stale_def)
  qed
  show "seg_live d' (segs[?t := s'] ! i) (ess[?t := es'] ! i)"
    if "h \<le> i" "i + 1 < length (segs[?t := s'])" for i
  proof -
    have it: "i < ?t" using that by simp
    have "seg_live d (segs ! i) (ess ! i)" using segs_ok_live[OF ok that(1)] that(2) by simp
    then show ?thesis unfolding nth[OF it] using same[OF pne[OF it]] by (auto simp: seg_live_def)
  qed
  show "tail_ok d' (segs[?t := s'] ! (length (segs[?t := s']) - 1))
          (ess[?t := es'] ! (length (segs[?t := s']) - 1)) m'"
    using t tn len by simp
  show "length e < 2 ^ 63" if "i < length (segs[?t := s'])" "e \<in> set (ess[?t := es'] ! i)" for i e
  proof (cases "i = ?t")
    case True
    with that len tn sz show ?thesis by simp
  next
    case False
    with that segs_ok_size[OF ok, of i e] show ?thesis by simp
  qed
  have n0: "0 < ?n" using h by linarith
  show "0 \<le> offset (segs[?t := s'] ! 0)" using segs_ok_zero[OF ok] off[OF n0] by simp
  show "offset (segs[?t := s'] ! i) + int (length (ess[?t := es'] ! i))
            \<le> offset (segs[?t := s'] ! (i + 1))
            \<and> offset (segs[?t := s'] ! i) < offset (segs[?t := s'] ! (i + 1))"
    if "i + 1 < length (segs[?t := s'])" for i
  proof -
    have a: "i < ?n" and b: "i + 1 < ?n" and it: "i < ?t" using that by simp_all
    show ?thesis unfolding nth(2)[OF it] off[OF a] off[OF b] using segs_ok_step[OF ok b] by simp
  qed
  show "offset (segs[?t := s'] ! (length (segs[?t := s']) - 1))
          + int (length (ess[?t := es'] ! (length (segs[?t := s']) - 1))) < 2 ^ 63"
    using top off[OF tn] tn len by simp
  show "h = length (segs[?t := s']) - 1" if "ess[?t := es'] ! h = []"
  proof (rule ccontr)
    assume "h \<noteq> length (segs[?t := s']) - 1"
    then have ht: "h < ?t" using h by simp
    with that have "ess ! h = []" by simp
    from segs_ok_first[OF ok this] ht show False by simp
  qed
  have "dom (fs_lookup d') = dom (fs_lookup d)"
  proof -
    have a: "fs_lookup d' (path (segs ! ?t)) \<noteq> None"
      using tail_ok_file[OF t] p by simp
    have b: "fs_lookup d (path (segs ! ?t)) \<noteq> None"
      using tail_ok_file[OF segs_ok_tail[OF ok]] by simp
    show ?thesis
    proof (rule set_eqI)
      fix q show "(q \<in> dom (fs_lookup d')) = (q \<in> dom (fs_lookup d))"
        using a b same[of q] by (cases "q = path (segs ! ?t)") (auto simp: dom_def)
    qed
  qed
  then show "dom (fs_lookup d') = set (drop h (map path (segs[?t := s'])))"
    using segs_ok_dom[OF ok] by (simp only: mp)
qed

section \<open>The claims\<close>

text \<open>
  C7. For every open log that is not corrupt, \<open>Read\<close> returns \<open>ErrNotFound\<close> exactly
  when the offset is below \<open>firstOffset\<close> or above \<open>lastOffset\<close>. A log opened on an
  empty directory has first index 0 and last index \<open>-1\<close>, and \<open>Read\<close> at 0 returns
  \<open>ErrNotFound\<close>.
\<close>

theorem read_not_found_iff_out_of_bounds:
  "(\<not> corrupt l \<and> \<not> closed l \<longrightarrow>
      (fst (Read l off) = Inl ErrNotFound) = (off < firstOffset l \<or> lastOffset l < off))
   \<and> (\<exists>l0. open_log [] optp = Inr l0 \<and> FirstIndex l0 = Inr 0 \<and> LastIndex l0 = Inr (- 1)
          \<and> fst (Read l0 0) = Inl ErrNotFound)"
proof -
  obtain l0 where "open_log [] optp = Inr l0" "firstOffset l0 = 0" "lastOffset l0 = - 1"
    "\<not> corrupt l0" "\<not> closed l0"
    using open_log_empty[of optp] by auto
  then show ?thesis
    using Read_not_found by (auto simp: FirstIndex_def LastIndex_def)
qed

theorem read_not_found_iff_out_of_bounds_witness:
  "\<not> corrupt (projr (open_run None [OpWrite 0 [1, 2]])) \<and>
   \<not> closed (projr (open_run None [OpWrite 0 [1, 2]])) \<and>
   fst (Read (projr (open_run None [OpWrite 0 [1, 2]])) 0) \<noteq> Inl ErrNotFound \<and>
   fst (Read (projr (open_run None [OpWrite 0 [1, 2]])) 1) = Inl ErrNotFound"
proof -
  have a: "\<not> corrupt (projr (open_run None [OpWrite 0 [1, 2]]))"
    and b: "\<not> closed (projr (open_run None [OpWrite 0 [1, 2]]))"
    and c: "firstOffset (projr (open_run None [OpWrite 0 [1, 2]])) = 0"
    and d: "lastOffset (projr (open_run None [OpWrite 0 [1, 2]])) = 0"
    by code_simp+
  show ?thesis
    using read_not_found_iff_out_of_bounds[of "projr (open_run None [OpWrite 0 [1, 2]])" 0 None]
      read_not_found_iff_out_of_bounds[of "projr (open_run None [OpWrite 0 [1, 2]])" 1 None]
      a b c d by simp
qed

text \<open>
  C4, as amended. On an open log that is not corrupt, \<open>TruncateFront\<close> at the first index
  leaves the whole log as it is (so the first index, the last index and every read are
  unchanged); it returns no error when the log holds an entry, and \<open>ErrOutOfRange\<close>
  when the log is empty, because the range check comes before the test for the first
  index.
\<close>

theorem truncate_front_at_first_index:
  "\<not> corrupt l \<and> \<not> closed l \<longrightarrow>
     TruncateFront l (firstOffset l) =
       (if firstOffset l \<le> lastOffset l then (None, l) else (Some ErrOutOfRange, l))"
  by (simp add: TruncateFront_def truncateFront_def)

theorem truncate_front_at_first_index_witness:
  "TruncateFront (projr (open_run None [OpWrite 0 [1, 2]])) 0 
     = (None, projr (open_run None [OpWrite 0 [1, 2]]))"
proof -
  have a: "\<not> corrupt (projr (open_run None [OpWrite 0 [1, 2]]))"
    and b: "\<not> closed (projr (open_run None [OpWrite 0 [1, 2]]))"
    and c: "firstOffset (projr (open_run None [OpWrite 0 [1, 2]])) = 0"
    and d: "lastOffset (projr (open_run None [OpWrite 0 [1, 2]])) = 0"
    by code_simp+
  show ?thesis
    using truncate_front_at_first_index[of "projr (open_run None [OpWrite 0 [1, 2]])"] a b c d
    by simp
qed

text \<open>The claim as stated fails on the empty log that \<open>open\<close> makes of an empty directory.\<close>

theorem truncate_front_empty_log_counterexample:
  "case open_log [] None of
     Inl e \<Rightarrow> False
   | Inr l \<Rightarrow> \<not> corrupt l \<and> \<not> closed l \<and>
       fst (TruncateFront l (firstOffset l)) = Some ErrOutOfRange"
  by code_simp

text \<open>
  C6, as amended. Opening fails with \<open>ErrCorrupt\<close> whenever the directory holds two
  TRUNCATE markers or markers of two distinct kinds; in every other case, also with
  several START markers or several END markers, the scan ends without error and the
  check of the markers passes.
\<close>

theorem open_marker_check:
  "(2 \<le> count_markers truncateSuffix (fs_ReadDir dir) \<or> two_kinds (fs_ReadDir dir)
      \<longrightarrow> open_log dir optp = Inl ErrCorrupt)
   \<and> (\<not> (2 \<le> count_markers truncateSuffix (fs_ReadDir dir) \<or> two_kinds (fs_ReadDir dir))
      \<longrightarrow> (\<exists>segs startIdx endIdx truncateIdx.
            load_scan (fs_ReadDir dir) [] (- 1) (- 1) (- 1) = Inr (segs, startIdx, endIdx, truncateIdx)
            \<and> \<not> markers_conflict startIdx endIdx truncateIdx))"
proof (cases "2 \<le> count_markers truncateSuffix (fs_ReadDir dir)")
  case True
  then have "load_scan (fs_ReadDir dir) [] (- 1) (- 1) (- 1) = Inl ErrCorrupt"
    by (intro load_scan_corrupt) simp
  with True show ?thesis
    by (simp add: open_log_def OpenWithShard_def load_def Let_def)
next
  case False
  then obtain segs s e t where
    r: "load_scan (fs_ReadDir dir) [] (- 1) (- 1) (- 1) = Inr (segs, s, e, t)"
    and s: "s \<noteq> - 1 \<longleftrightarrow> 0 < count_markers startSuffix (fs_ReadDir dir)"
    and e: "e \<noteq> - 1 \<longleftrightarrow> 0 < count_markers endSuffix (fs_ReadDir dir)"
    and t: "t \<noteq> - 1 \<longleftrightarrow> 0 < count_markers truncateSuffix (fs_ReadDir dir)"
    and n: "segs = [] \<longrightarrow> count_markers startSuffix (fs_ReadDir dir) = 0 
              \<and> count_markers endSuffix (fs_ReadDir dir) = 0 \<and> count_markers truncateSuffix (fs_ReadDir dir) = 0"
    using load_scan_ok[of "- 1" "fs_ReadDir dir" "[]" "- 1" "- 1"] by auto
  have mc: "markers_conflict s e t = two_kinds (fs_ReadDir dir)"
    using s e t by (auto simp: markers_conflict_def two_kinds_def)
  show ?thesis
  proof (cases "two_kinds (fs_ReadDir dir)")
    case True
    with n have "segs \<noteq> []" by (auto simp: two_kinds_def)
    with True r mc show ?thesis
      by (simp add: open_log_def OpenWithShard_def load_def Let_def)
  next
    case tk: False
    with False r mc show ?thesis by simp
  qed
qed

theorem open_marker_check_witness:
  "open_log [(segmentName 5 @ startSuffix, []), (segmentName 7 @ endSuffix, [])] None
     = Inl ErrCorrupt
   \<and> (\<exists>segs startIdx endIdx truncateIdx.
        load_scan (fs_ReadDir [(segmentName 5 @ endSuffix, []), (segmentName 7 @ endSuffix, [])])
          [] (- 1) (- 1) (- 1) = Inr (segs, startIdx, endIdx, truncateIdx)
        \<and> \<not> markers_conflict startIdx endIdx truncateIdx)"
proof -
  have a: "two_kinds (fs_ReadDir [(segmentName 5 @ startSuffix, []), (segmentName 7 @ endSuffix, [])])"
    by code_simp
  have b: "\<not> (2 \<le> count_markers truncateSuffix
                 (fs_ReadDir [(segmentName 5 @ endSuffix, []), (segmentName 7 @ endSuffix, [])])
            \<or> two_kinds (fs_ReadDir [(segmentName 5 @ endSuffix, []), (segmentName 7 @ endSuffix, [])]))"
    by code_simp
  show ?thesis
    using a b
      open_marker_check[of "[(segmentName 5 @ startSuffix, []), (segmentName 7 @ endSuffix, [])]" None]
      open_marker_check[of "[(segmentName 5 @ endSuffix, []), (segmentName 7 @ endSuffix, [])]" None]
    by blast
qed

text \<open>
  The claim as stated fails on a directory with two START markers: opening it does not
  return \<open>ErrCorrupt\<close>.
\<close>

theorem two_start_markers_counterexample:
  "open_log [(segmentName 5 @ startSuffix, []), (segmentName 7 @ startSuffix, [])] None
     \<noteq> Inl ErrCorrupt"
  by code_simp

text \<open>
  C3. \<open>TruncateBack\<close> at the first index minus one should empty the log. On a log that
  holds the one entry 0 it returns no error and changes nothing: the entry is still
  read.
\<close>

theorem truncate_back_all_single_entry:
  "case open_run None [OpWrite 0 [1, 2]] of
     Inl e \<Rightarrow> False
   | Inr l \<Rightarrow>
       firstOffset l = 0 \<and> lastOffset l = 0 \<and>
       TruncateBack l (firstOffset l - 1) = (None, l) \<and>
       fst (Read l 0) = Inr [1, 2]"
  by code_simp

text \<open>
  With two entries the same call fails before it changes anything: \<open>truncateBackAll\<close>
  opens the TRUNCATE file without creating it.
\<close>

theorem truncate_back_all_two_entries:
  "case open_run None [OpWrite 0 [1, 2], OpWrite 1 [3]] of
     Inl e \<Rightarrow> False
   | Inr l \<Rightarrow>
       firstOffset l = 0 \<and> lastOffset l = 1 \<and>
       TruncateBack l (firstOffset l - 1) = (Some ErrNotExist, l)"
  by code_simp

text \<open>
  C5. An error after the commit rename of a truncation should come back as
  \<open>ErrCorrupt\<close> and mark the log corrupt. After the writes at 5 and 6 to a new log,
  \<open>TruncateFront\<close> at 6 renames the temp file to the START name and then fails to remove
  the file of the initial segment, which \<open>cycle\<close> had already removed: it returns that
  error, the log is not marked corrupt, and the next operations do not return
  \<open>ErrCorrupt\<close>.
\<close>

theorem truncate_front_cleanup_error_not_corrupt:
  "case open_run None [OpWrite 5 [1, 2], OpWrite 6 [3]] of
     Inl e \<Rightarrow> False
   | Inr l \<Rightarrow>
       (case TruncateFront l 6 of
          (e, l1) \<Rightarrow>
            e = Some ErrNotExist \<and> \<not> corrupt l1 \<and>
            fs_lookup (fs l1) (segmentName 6 @ startSuffix) = Some [1, 3] \<and>
            fs_lookup (fs l1) tempFileName = None \<and>
            fst (Read l1 5) = Inr [1, 2] \<and>
            fst (Write l1 7 [4]) = Some ErrFileClosed)"
  by code_simp

text \<open>
  C10. \<open>Read\<close> should index the positions of a segment within bounds for every offset
  between the first and the last index. After the writes at 0 and 2, offset 1 is within
  the bounds and \<open>Read\<close> at 1 indexes past the one position of the first segment.
\<close>

theorem read_in_gap_panics:
  "case open_run None [OpWrite 0 [1, 2], OpWrite 2 [3]] of
     Inl e \<Rightarrow> False
   | Inr l \<Rightarrow>
       firstOffset l \<le> 1 \<and> 1 \<le> lastOffset l \<and> fst (Read l 1) = Inl Panic"
  by code_simp

text \<open>Further runs on which statements of the specification fail.\<close>

theorem gap_inside_batch_counterexample:
  "case open_run None [OpWriteBatch [(0, [1]), (2, [7])]] of
     Inl e \<Rightarrow> False
   | Inr l \<Rightarrow> fst (Read l 2) = Inl Panic"
  by code_simp

theorem reopen_after_gap_batch_counterexample:
  "case open_run None [OpWriteBatch [(0, [1]), (2, [7])]] of
     Inl e \<Rightarrow> False
   | Inr l \<Rightarrow>
       (case Close l of
          (Some e, lc) \<Rightarrow> False
        | (None, lc) \<Rightarrow>
            (case open_log (fs lc) None of
               Inl e \<Rightarrow> False
             | Inr l' \<Rightarrow> LastIndex l = Inr 2 \<and> LastIndex l' = Inr 1))"
  by code_simp

theorem write_below_first_counterexample:
  "case open_run None [OpWrite 5 [1], OpWrite 0 [2]] of
     Inl e \<Rightarrow> False
   | Inr l \<Rightarrow> firstOffset l = 5 \<and> lastOffset l = 0"
  by code_simp

end
